theory Spec2Isabelle
  imports Main
begin

section \<open>JavaScript strings\<close>

text \<open>
  A JavaScript string is a finite sequence of UTF-16 code units. The model keeps a string
  as the list of its code units, each a natural number below 65536; \<open>length\<close> is the
  source's \<open>.length\<close>, \<open>take 30\<close> is \<open>.substring(0, 30)\<close>, \<open>drop 6\<close> is \<open>.slice(6)\<close>.
  A literal of the source is written \<open>js ''...''\<close>.
\<close>

type_synonym jsstring = "nat list"

abbreviation js :: "string \<Rightarrow> jsstring" where
  "js s \<equiv> map of_char s"

text \<open>
  \<open>WhiteSpace\<close> and \<open>LineTerminator\<close> of ECMAScript: what \<open>String.prototype.trim\<close>
  strips and what \<open>\s\<close> matches in a regular expression.
\<close>

definition is_js_space :: "nat \<Rightarrow> bool" where
  "is_js_space c \<longleftrightarrow>
     c \<in> {9, 10, 11, 12, 13, 32, 160, 5760, 8232, 8233, 8239, 8287, 12288, 65279}
     \<or> (8192 \<le> c \<and> c \<le> 8202)"

definition js_trim :: "jsstring \<Rightarrow> jsstring" where
  "js_trim s = rev (dropWhile is_js_space (rev (dropWhile is_js_space s)))"

function digits10 :: "nat \<Rightarrow> nat list" where
  "digits10 n = (if n = 0 then [] else (n mod 10) # digits10 (n div 10))"
  by pat_completeness auto
termination
  by (relation "measure (\<lambda>n. n)") auto

declare digits10.simps [simp del]

text \<open>\<open>Number.prototype.toString\<close> of a non-negative integer below \<open>2^53\<close>, as \<open>Date.now()\<close> is.\<close>

definition nat_toString :: "nat \<Rightarrow> jsstring" where
  "nat_toString n = (if n = 0 then js ''0'' else map (\<lambda>d. 48 + d) (rev (digits10 n)))"

section \<open>Data model\<close>

text \<open>
  Messages and sessions are the objects of \<open>script.js\<close>: a message is
  \<open>{ role, content }\<close>, a session is \<open>{ id, title, messages, updatedAt }\<close>. The roles the
  script stores are the strings \<open>'user'\<close> and \<open>'assistant'\<close>.
\<close>

datatype role = User | Assistant

record message =
  role :: role
  content :: jsstring

record session =
  session_id :: jsstring
  title :: jsstring
  messages :: "message list"
  updatedAt :: nat

text \<open>
  A message node of the chat view, built by \<open>appendMessage\<close>: its identity (the script
  holds on to the element it created), the class suffix, the
  markdown source whose sanitized rendering is the node's \<open>.message-content\<close>, and the
  \<open>onclick\<close> attribute of its copy button.
\<close>

record node =
  node_id :: nat
  node_role :: jsstring
  node_content :: jsstring
  node_onclick :: jsstring

text \<open>The body of one \<open>fetch\<close> to the chat-completion endpoint: the bearer key and the messages sent.\<close>

record request =
  req_key :: jsstring
  req_messages :: "message list"

text \<open>
  The state of the page. The session objects live in a store (\<open>heap\<close>) and the global
  array \<open>sessions\<close> holds references to them: \<open>find\<close> returns a reference, the script
  mutates the object behind it, and \<open>sort\<close> reorders the array in place.
  \<open>ls_sessions\<close> and \<open>ls_openai_key\<close> are the two entries of \<open>localStorage\<close>
  (\<open>infotip_sessions\<close>, \<open>infotip_openai_key\<close>); the first holds the session list that
  the stored JSON text denotes. Styling (scroll position, focus, the sidebar and view
  classes, the height of the text area) is left out.
\<close>

record app =
  heap :: "nat \<Rightarrow> session"
  nextRef :: nat
  sessions :: "nat list"
  currentSessionId :: "jsstring option"
  ls_sessions :: "session list option"
  ls_openai_key :: "jsstring option"
  chatMessages :: "node list"
  nextNode :: nat
  historyList :: "(jsstring \<times> bool) list"
  toasts :: "(jsstring \<times> jsstring) list"
  console_errors :: nat
  chatInput_value :: jsstring
  sendBtn_disabled :: bool
  fetch_log :: "request list"
  prompts :: nat
  clipboard :: "jsstring option"

section \<open>encodeURIComponent and decodeURIComponent\<close>

text \<open>
  \<open>encodeURIComponent\<close> leaves the letters, the digits and \<open>- _ . ! ~ * ' ( )\<close> as they
  are and writes every other code point as the \<open>%XX\<close> escapes of its UTF-8 octets; a
  surrogate that is not part of a pair raises \<open>URIError\<close> (the value \<open>None\<close>).
\<close>

definition uriUnescaped :: "nat \<Rightarrow> bool" where
  "uriUnescaped c \<longleftrightarrow>
     (65 \<le> c \<and> c \<le> 90) \<or> (97 \<le> c \<and> c \<le> 122) \<or> (48 \<le> c \<and> c \<le> 57)
     \<or> c \<in> {45, 95, 46, 33, 126, 42, 39, 40, 41}"

definition utf8_octets :: "nat \<Rightarrow> nat list" where
  "utf8_octets cp =
     (if cp < 128 then [cp]
      else if cp < 2048 then [192 + cp div 64, 128 + cp mod 64]
      else if cp < 65536 then [224 + cp div 4096, 128 + (cp div 64) mod 64, 128 + cp mod 64]
      else [240 + cp div 262144, 128 + (cp div 4096) mod 64, 128 + (cp div 64) mod 64,
            128 + cp mod 64])"

definition hex_digit :: "nat \<Rightarrow> nat" where
  "hex_digit d = (if d < 10 then 48 + d else 55 + d)"

definition percent_escape :: "nat list \<Rightarrow> jsstring" where
  "percent_escape bs = concat (map (\<lambda>b. [37, hex_digit (b div 16), hex_digit (b mod 16)]) bs)"

fun encodeURIComponent :: "jsstring \<Rightarrow> jsstring option" where
  "encodeURIComponent [] = Some []"
| "encodeURIComponent [c] =
     (if uriUnescaped c then Some [c]
      else if 55296 \<le> c \<and> c \<le> 57343 then None
      else Some (percent_escape (utf8_octets c)))"
| "encodeURIComponent (c # d # ds) =
     (if uriUnescaped c then map_option ((#) c) (encodeURIComponent (d # ds))
      else if c < 55296 \<or> 57343 < c
        then map_option ((@) (percent_escape (utf8_octets c))) (encodeURIComponent (d # ds))
      else if c \<le> 56319 \<and> 56320 \<le> d \<and> d \<le> 57343
        then map_option
               ((@) (percent_escape (utf8_octets (65536 + (c - 55296) * 1024 + (d - 56320)))))
               (encodeURIComponent ds)
      else None)"

text \<open>
  \<open>decodeURIComponent\<close> in two passes: the escapes \<open>%XX\<close> become octets (\<open>Inr\<close>), every
  other code unit stays (\<open>Inl\<close>); then each run of octets must be the UTF-8 encoding of a
  code point, which is written back as one code unit or a surrogate pair. Anything else
  raises \<open>URIError\<close>.
\<close>

definition hex_value :: "nat \<Rightarrow> nat option" where
  "hex_value c =
     (if 48 \<le> c \<and> c \<le> 57 then Some (c - 48)
      else if 65 \<le> c \<and> c \<le> 70 then Some (c - 55)
      else if 97 \<le> c \<and> c \<le> 102 then Some (c - 87)
      else None)"

fun unescape_octets :: "jsstring \<Rightarrow> (nat + nat) list option" where
  "unescape_octets [] = Some []"
| "unescape_octets (c # cs) =
     (if c = 37 then
        (case cs of
           h # l # rest \<Rightarrow>
             (case (hex_value h, hex_value l) of
                (Some a, Some b) \<Rightarrow> map_option ((#) (Inr (16 * a + b))) (unescape_octets rest)
              | _ \<Rightarrow> None)
         | _ \<Rightarrow> None)
      else map_option ((#) (Inl c)) (unescape_octets cs))"

definition code_units :: "nat \<Rightarrow> jsstring" where
  "code_units cp =
     (if cp < 65536 then [cp]
      else [55296 + (cp - 65536) div 1024, 56320 + (cp - 65536) mod 1024])"

definition continuation :: "nat \<Rightarrow> bool" where
  "continuation b \<longleftrightarrow> 128 \<le> b \<and> b < 192"

fun utf8_decode :: "(nat + nat) list \<Rightarrow> jsstring option" where
  "utf8_decode [] = Some []"
| "utf8_decode (Inl c # xs) = map_option ((#) c) (utf8_decode xs)"
| "utf8_decode (Inr b # xs) =
     (if b < 128 then map_option ((#) b) (utf8_decode xs)
      else if 192 \<le> b \<and> b < 224 then
        (case xs of
           Inr b1 # ys \<Rightarrow>
             (let cp = (b - 192) * 64 + (b1 - 128)
              in if continuation b1 \<and> 128 \<le> cp
                 then map_option ((@) (code_units cp)) (utf8_decode ys) else None)
         | _ \<Rightarrow> None)
      else if 224 \<le> b \<and> b < 240 then
        (case xs of
           Inr b1 # Inr b2 # ys \<Rightarrow>
             (let cp = (b - 224) * 4096 + (b1 - 128) * 64 + (b2 - 128)
              in if continuation b1 \<and> continuation b2 \<and> 2048 \<le> cp
                    \<and> \<not> (55296 \<le> cp \<and> cp \<le> 57343)
                 then map_option ((@) (code_units cp)) (utf8_decode ys) else None)
         | _ \<Rightarrow> None)
      else if 240 \<le> b \<and> b < 248 then
        (case xs of
           Inr b1 # Inr b2 # Inr b3 # ys \<Rightarrow>
             (let cp = (b - 240) * 262144 + (b1 - 128) * 4096 + (b2 - 128) * 64 + (b3 - 128)
              in if continuation b1 \<and> continuation b2 \<and> continuation b3
                    \<and> 65536 \<le> cp \<and> cp \<le> 1114111
                 then map_option ((@) (code_units cp)) (utf8_decode ys) else None)
         | _ \<Rightarrow> None)
      else None)"

definition decodeURIComponent :: "jsstring \<Rightarrow> jsstring option" where
  "decodeURIComponent s = (case unescape_octets s of None \<Rightarrow> None | Some xs \<Rightarrow> utf8_decode xs)"

section \<open>JSON.parse\<close>

text \<open>
  The values \<open>JSON.parse\<close> returns. A number keeps its literal (the Number it denotes is
  observed only through its truthiness and its string form, below); an object keeps its
  members in source order, duplicates included, and a lookup takes the last one.
\<close>

datatype json =
    JNull
  | JBool bool
  | JNum jsstring
  | JStr jsstring
  | JArr "json list"
  | JObj "(jsstring \<times> json) list"

datatype token = TLBrace | TRBrace | TLBrack | TRBrack | TColon | TComma | Scalar json

text \<open>
  The parser is a deterministic pushdown automaton over the code units of the text. Its
  stack holds the arrays and objects that are still open (elements and members in
  reverse, and for an object the key that awaits its value); \<open>expect\<close> says what may come
  next; \<open>lexer\<close> is the token being read.
\<close>

datatype frame = InArray "json list" | InObject "(jsstring \<times> json) list" jsstring

datatype expect = Value | ValueOrClose | KeyOrClose | Key | Colon | CommaOrClose | Finished json

datatype lexer =
    Idle
  | InString jsstring
  | Escape jsstring
  | Unicode jsstring "nat list"
  | InNumber jsstring
  | InWord jsstring

fun complete :: "json \<Rightarrow> frame list \<Rightarrow> expect \<times> frame list" where
  "complete v [] = (Finished v, [])"
| "complete v (InArray xs # st) = (CommaOrClose, InArray (v # xs) # st)"
| "complete v (InObject ms k # st) = (CommaOrClose, InObject ((k, v) # ms) k # st)"

fun feed :: "token \<Rightarrow> expect \<times> frame list \<Rightarrow> (expect \<times> frame list) option" where
  "feed (Scalar v) (Value, st) = Some (complete v st)"
| "feed (Scalar v) (ValueOrClose, st) = Some (complete v st)"
| "feed TLBrack (Value, st) = Some (ValueOrClose, InArray [] # st)"
| "feed TLBrack (ValueOrClose, st) = Some (ValueOrClose, InArray [] # st)"
| "feed TLBrace (Value, st) = Some (KeyOrClose, InObject [] [] # st)"
| "feed TLBrace (ValueOrClose, st) = Some (KeyOrClose, InObject [] [] # st)"
| "feed TRBrack (ValueOrClose, InArray xs # st) = Some (complete (JArr (rev xs)) st)"
| "feed (Scalar (JStr k)) (KeyOrClose, InObject ms k0 # st) = Some (Colon, InObject ms k # st)"
| "feed (Scalar (JStr k)) (Key, InObject ms k0 # st) = Some (Colon, InObject ms k # st)"
| "feed TRBrace (KeyOrClose, InObject ms k # st) = Some (complete (JObj (rev ms)) st)"
| "feed TColon (Colon, st) = Some (Value, st)"
| "feed TComma (CommaOrClose, InArray xs # st) = Some (Value, InArray xs # st)"
| "feed TComma (CommaOrClose, InObject ms k # st) = Some (Key, InObject ms k # st)"
| "feed TRBrack (CommaOrClose, InArray xs # st) = Some (complete (JArr (rev xs)) st)"
| "feed TRBrace (CommaOrClose, InObject ms k # st) = Some (complete (JObj (rev ms)) st)"
| "feed t p = None"

definition is_digit :: "nat \<Rightarrow> bool" where
  "is_digit c \<longleftrightarrow> 48 \<le> c \<and> c \<le> 57"

definition json_ws :: "nat \<Rightarrow> bool" where
  "json_ws c \<longleftrightarrow> c = 32 \<or> c = 9 \<or> c = 10 \<or> c = 13"

definition number_char :: "nat \<Rightarrow> bool" where
  "number_char c \<longleftrightarrow> is_digit c \<or> c = 45 \<or> c = 43 \<or> c = 46 \<or> c = 101 \<or> c = 69"

definition word_char :: "nat \<Rightarrow> bool" where
  "word_char c \<longleftrightarrow> 97 \<le> c \<and> c \<le> 122"

text \<open>
  The JSON number grammar: an optional minus, \<open>0\<close> or a digit string without leading
  zero, an optional fraction, an optional exponent.
\<close>

definition valid_exponent :: "jsstring \<Rightarrow> bool" where
  "valid_exponent r =
     (case r of
        [] \<Rightarrow> True
      | c # r1 \<Rightarrow>
          (c = 101 \<or> c = 69) \<and>
          (let r2 = (case r1 of [] \<Rightarrow> [] | d # r' \<Rightarrow> if d = 43 \<or> d = 45 then r' else r1)
           in r2 \<noteq> [] \<and> list_all is_digit r2))"

definition valid_fraction :: "jsstring \<Rightarrow> bool" where
  "valid_fraction r =
     (case r of
        [] \<Rightarrow> True
      | c # r1 \<Rightarrow>
          if c = 46 then takeWhile is_digit r1 \<noteq> [] \<and> valid_exponent (dropWhile is_digit r1)
          else valid_exponent r)"

definition valid_number :: "jsstring \<Rightarrow> bool" where
  "valid_number s =
     (let s1 = (case s of [] \<Rightarrow> [] | c # r \<Rightarrow> if c = 45 then r else s);
          ip = takeWhile is_digit s1
      in ip \<noteq> [] \<and> (if hd ip = 48 then length ip = 1 else True)
         \<and> valid_fraction (dropWhile is_digit s1))"

definition end_number :: "jsstring \<Rightarrow> expect \<times> frame list \<Rightarrow> (expect \<times> frame list) option" where
  "end_number acc p = (if valid_number (rev acc) then feed (Scalar (JNum (rev acc))) p else None)"

definition end_word :: "jsstring \<Rightarrow> expect \<times> frame list \<Rightarrow> (expect \<times> frame list) option" where
  "end_word acc p =
     (if rev acc = js ''true'' then feed (Scalar (JBool True)) p
      else if rev acc = js ''false'' then feed (Scalar (JBool False)) p
      else if rev acc = js ''null'' then feed (Scalar JNull) p
      else None)"

definition idle :: "nat \<Rightarrow> expect \<times> frame list \<Rightarrow> (lexer \<times> expect \<times> frame list) option" where
  "idle c p =
     (if json_ws c then Some (Idle, p)
      else if c = 123 then map_option (Pair Idle) (feed TLBrace p)
      else if c = 125 then map_option (Pair Idle) (feed TRBrace p)
      else if c = 91 then map_option (Pair Idle) (feed TLBrack p)
      else if c = 93 then map_option (Pair Idle) (feed TRBrack p)
      else if c = 58 then map_option (Pair Idle) (feed TColon p)
      else if c = 44 then map_option (Pair Idle) (feed TComma p)
      else if c = 34 then Some (InString [], p)
      else if c = 45 \<or> is_digit c then Some (InNumber [c], p)
      else if word_char c then Some (InWord [c], p)
      else None)"

definition escaped :: "nat \<Rightarrow> nat option" where
  "escaped c =
     (if c = 34 \<or> c = 92 \<or> c = 47 then Some c
      else if c = 98 then Some 8
      else if c = 102 then Some 12
      else if c = 110 then Some 10
      else if c = 114 then Some 13
      else if c = 116 then Some 9
      else None)"

fun step :: "lexer \<times> expect \<times> frame list \<Rightarrow> nat \<Rightarrow> (lexer \<times> expect \<times> frame list) option" where
  "step (Idle, p) c = idle c p"
| "step (InString acc, p) c =
     (if c = 34 then map_option (Pair Idle) (feed (Scalar (JStr (rev acc))) p)
      else if c = 92 then Some (Escape acc, p)
      else if c < 32 then None
      else Some (InString (c # acc), p))"
| "step (Escape acc, p) c =
     (if c = 117 then Some (Unicode acc [], p)
      else (case escaped c of None \<Rightarrow> None | Some d \<Rightarrow> Some (InString (d # acc), p)))"
| "step (Unicode acc ds, p) c =
     (case hex_value c of
        None \<Rightarrow> None
      | Some d \<Rightarrow>
          if length ds = 3
          then Some (InString (foldl (\<lambda>n h. 16 * n + h) 0 (ds @ [d]) # acc), p)
          else Some (Unicode acc (ds @ [d]), p))"
| "step (InNumber acc, p) c =
     (if number_char c then Some (InNumber (c # acc), p)
      else (case end_number acc p of None \<Rightarrow> None | Some p' \<Rightarrow> idle c p'))"
| "step (InWord acc, p) c =
     (if word_char c then Some (InWord (c # acc), p)
      else (case end_word acc p of None \<Rightarrow> None | Some p' \<Rightarrow> idle c p'))"

fun run :: "lexer \<times> expect \<times> frame list \<Rightarrow> jsstring \<Rightarrow> (lexer \<times> expect \<times> frame list) option" where
  "run cfg [] = Some cfg"
| "run cfg (c # cs) = (case step cfg c of None \<Rightarrow> None | Some cfg' \<Rightarrow> run cfg' cs)"

fun result :: "expect \<times> frame list \<Rightarrow> json option" where
  "result (Finished v, st) = Some v"
| "result p = None"

fun finish :: "lexer \<times> expect \<times> frame list \<Rightarrow> json option" where
  "finish (Idle, p) = result p"
| "finish (InNumber acc, p) = (case end_number acc p of None \<Rightarrow> None | Some p' \<Rightarrow> result p')"
| "finish (InWord acc, p) = (case end_word acc p of None \<Rightarrow> None | Some p' \<Rightarrow> result p')"
| "finish cfg = None"

text \<open>\<open>JSON.parse\<close>: \<open>None\<close> is the \<open>SyntaxError\<close> it throws.\<close>

definition JSON_parse :: "jsstring \<Rightarrow> json option" where
  "JSON_parse s = (case run (Idle, Value, []) s of None \<Rightarrow> None | Some cfg \<Rightarrow> finish cfg)"

section \<open>The Number a JSON literal denotes\<close>

text \<open>
  A literal denotes the IEEE 754 double nearest to its decimal value, ties to the even
  significand. The script observes such a Number in two ways only: its truthiness (it is
  falsy when it is zero) and its string form when \<open>+=\<close> appends it to a string. Both are
  computed here with exact integer arithmetic: a positive double is \<open>q * 2 ^ p\<close> with
  \<open>q < 2 ^ 53\<close> and \<open>- 1074 \<le> p \<le> 971\<close>.
\<close>

definition digits_value :: "jsstring \<Rightarrow> nat" where
  "digits_value ds = foldl (\<lambda>n d. 10 * n + (d - 48)) 0 ds"

text \<open>The sign, the digits and the decimal exponent of a valid literal: its value is \<open>\<plusminus> m * 10 ^ e\<close>.\<close>

definition literal_value :: "jsstring \<Rightarrow> bool \<times> nat \<times> int" where
  "literal_value s =
     (let neg = (case s of [] \<Rightarrow> False | c # r \<Rightarrow> c = 45);
          s1 = (if neg then tl s else s);
          ip = takeWhile is_digit s1;
          r1 = dropWhile is_digit s1;
          fp = (case r1 of [] \<Rightarrow> [] | c # r \<Rightarrow> if c = 46 then takeWhile is_digit r else []);
          r2 = (case r1 of [] \<Rightarrow> [] | c # r \<Rightarrow> if c = 46 then dropWhile is_digit r else r1);
          ex = (case r2 of
                  [] \<Rightarrow> 0
                | c # r3 \<Rightarrow>
                    (case r3 of
                       [] \<Rightarrow> 0
                     | d # r4 \<Rightarrow>
                         if d = 45 then - int (digits_value r4)
                         else if d = 43 then int (digits_value r4)
                         else int (digits_value r3)))
      in (neg, digits_value (ip @ fp), ex - int (length fp)))"

function digit_count :: "nat \<Rightarrow> nat \<Rightarrow> nat" where
  "digit_count b n = (if n = 0 \<or> b < 2 then 0 else Suc (digit_count b (n div b)))"
  by pat_completeness auto
termination
  by (relation "measure (\<lambda>(b, n). n)") auto

declare digit_count.simps [simp del]

text \<open>\<open>floor_log b n d\<close> is the integer part of the logarithm to base \<open>b\<close> of \<open>n / d\<close>.\<close>

definition floor_log :: "nat \<Rightarrow> nat \<Rightarrow> nat \<Rightarrow> int" where
  "floor_log b n d =
     (let k = int (digit_count b n) - int (digit_count b d)
      in if d * b ^ nat k \<le> n * b ^ nat (- k) then k else k - 1)"

datatype number = Zero | Double nat int | Infinity

definition round_half_even :: "nat \<Rightarrow> nat \<Rightarrow> nat" where
  "round_half_even n d =
     (let q = n div d; r = n mod d
      in if d < 2 * r then q + 1
         else if 2 * r = d then (if even q then q else q + 1)
         else q)"

definition to_double :: "nat \<Rightarrow> int \<Rightarrow> number" where
  "to_double m e =
     (if m = 0 then Zero
      else
        let n = m * 10 ^ nat e;
            d = 10 ^ nat (- e);
            p = max (floor_log 2 n d - 52) (- 1074);
            q = round_half_even (n * 2 ^ nat (- p)) (d * 2 ^ nat p);
            p' = (if q = 2 ^ 53 then p + 1 else p);
            q' = (if q = 2 ^ 53 then 2 ^ 52 else q)
        in if q' = 0 then Zero else if 971 < p' then Infinity else Double q' p')"

definition number_of_literal :: "jsstring \<Rightarrow> number" where
  "number_of_literal s = (case literal_value s of (neg, m, e) \<Rightarrow> to_double m e)"

text \<open>
  \<open>Number::toString\<close>: the shortest digit string \<open>s\<close> with \<open>s * 10 ^ t\<close> rounding to the
  double, the nearest such when there are several (the even one on a tie), as the
  engines print it. A decimal rounds to \<open>q * 2 ^ p\<close> when it lies between the midpoints
  to the neighbouring doubles, which are \<open>lo * 2 ^ (p - 2)\<close> and \<open>hi * 2 ^ (p - 2)\<close> below;
  the midpoints themselves round to it when \<open>q\<close> is even.
\<close>

definition rounds_to :: "nat \<Rightarrow> int \<Rightarrow> nat \<Rightarrow> int \<Rightarrow> bool" where
  "rounds_to q p s t =
     (let lo = (if q = 2 ^ 52 \<and> - 1074 < p then 4 * q - 1 else 4 * q - 2);
          hi = 4 * q + 2;
          a = s * 10 ^ nat t * 2 ^ nat (2 - p);
          sc = 10 ^ nat (- t) * 2 ^ nat (p - 2)
      in if even q then lo * sc \<le> a \<and> a \<le> hi * sc else lo * sc < a \<and> a < hi * sc)"

definition distance :: "nat \<Rightarrow> int \<Rightarrow> nat \<Rightarrow> int \<Rightarrow> nat" where
  "distance q p s t =
     (let a = int (s * 10 ^ nat t * 2 ^ nat (- p));
          x = int (q * 10 ^ nat (- t) * 2 ^ nat p)
      in nat (abs (a - x)))"

definition closest :: "nat \<Rightarrow> int \<Rightarrow> int \<Rightarrow> nat list \<Rightarrow> nat option" where
  "closest q p t cands =
     (case cands of
        [] \<Rightarrow> None
      | [a] \<Rightarrow> Some a
      | a # b # r \<Rightarrow>
          if distance q p a t < distance q p b t then Some a
          else if distance q p b t < distance q p a t then Some b
          else if even a then Some a else Some b)"

fun shortest :: "nat \<Rightarrow> nat \<Rightarrow> nat \<Rightarrow> int \<Rightarrow> int \<Rightarrow> nat \<times> int" where
  "shortest 0 k q p e10 = (q * 2 ^ nat p * 10 ^ nat (int k - 1 - e10) div 2 ^ nat (- p), e10 - int k + 1)"
| "shortest (Suc fuel) k q p e10 =
     (let t = e10 - int k + 1;
          s = (q * 2 ^ nat p * 10 ^ nat (- t)) div (2 ^ nat (- p) * 10 ^ nat t)
      in case closest q p t (filter (\<lambda>c. rounds_to q p c t) [s, s + 1]) of
           Some c \<Rightarrow> if c = 10 ^ k then (c div 10, t + 1) else (c, t)
         | None \<Rightarrow> shortest fuel (Suc k) q p e10)"

definition format_number :: "nat \<Rightarrow> int \<Rightarrow> jsstring" where
  "format_number s t =
     (let ds = nat_toString s;
          k = length ds;
          n = t + int k
      in if int k \<le> n \<and> n \<le> 21 then ds @ replicate (nat (n - int k)) 48
         else if 0 < n \<and> n \<le> 21 then take (nat n) ds @ [46] @ drop (nat n) ds
         else if - 6 < n \<and> n \<le> 0 then js ''0.'' @ replicate (nat (- n)) 48 @ ds
         else
           let ex = (if n - 1 < 0 then [45] else [43]) @ nat_toString (nat (abs (n - 1)))
           in if k = 1 then ds @ [101] @ ex else take 1 ds @ [46] @ drop 1 ds @ [101] @ ex)"

definition Number_toString :: "jsstring \<Rightarrow> jsstring" where
  "Number_toString lit =
     (case literal_value lit of
        (neg, m, e) \<Rightarrow>
          (case to_double m e of
             Zero \<Rightarrow> js ''0''
           | Infinity \<Rightarrow> (if neg then js ''-Infinity'' else js ''Infinity'')
           | Double q p \<Rightarrow>
               (case shortest 17 1 q p (floor_log 10 (q * 2 ^ nat p) (2 ^ nat (- p))) of
                  (s, t) \<Rightarrow> (if neg then [45] else []) @ format_number s t)))"

section \<open>Reading a parsed value\<close>

text \<open>
  A JavaScript value read from parsed JSON is a \<open>json option\<close>: \<open>None\<close> is \<open>undefined\<close>.
  An exception is a value of \<open>thrown\<close>; \<open>Error m\<close> is \<open>new Error(m)\<close>.
\<close>

datatype thrown = TypeError | SyntaxError | URIError | Error jsstring

definition truthy :: "json option \<Rightarrow> bool" where
  "truthy v =
     (case v of
        None \<Rightarrow> False
      | Some JNull \<Rightarrow> False
      | Some (JBool b) \<Rightarrow> b
      | Some (JNum l) \<Rightarrow> number_of_literal l \<noteq> Zero
      | Some (JStr s) \<Rightarrow> s \<noteq> []
      | Some (JArr xs) \<Rightarrow> True
      | Some (JObj ms) \<Rightarrow> True)"

definition own_property :: "(jsstring \<times> json) list \<Rightarrow> jsstring \<Rightarrow> json option" where
  "own_property ms k = map_of (rev ms) k"

text \<open>
  \<open>v.k\<close> for a name \<open>k\<close> that no prototype defines (\<open>choices\<close>, \<open>delta\<close>, \<open>content\<close>):
  a \<open>TypeError\<close> on \<open>undefined\<close> and \<open>null\<close>, the own property of an object, \<open>undefined\<close>
  on every other value.
\<close>

definition member :: "jsstring \<Rightarrow> json option \<Rightarrow> thrown + json option" where
  "member k v =
     (case v of
        None \<Rightarrow> Inl TypeError
      | Some JNull \<Rightarrow> Inl TypeError
      | Some (JObj ms) \<Rightarrow> Inr (own_property ms k)
      | Some w \<Rightarrow> Inr None)"

text \<open>\<open>v[0]\<close>: the first element of an array, the first code unit of a string, the property \<open>"0"\<close> of an object.\<close>

definition element0 :: "json option \<Rightarrow> thrown + json option" where
  "element0 v =
     (case v of
        None \<Rightarrow> Inl TypeError
      | Some JNull \<Rightarrow> Inl TypeError
      | Some (JArr xs) \<Rightarrow> Inr (case xs of [] \<Rightarrow> None | x # r \<Rightarrow> Some x)
      | Some (JStr s) \<Rightarrow> Inr (case s of [] \<Rightarrow> None | c # r \<Rightarrow> Some (JStr [c]))
      | Some (JObj ms) \<Rightarrow> Inr (own_property ms (js ''0''))
      | Some w \<Rightarrow> Inr None)"

text \<open>
  The string that \<open>+=\<close> appends for a value: a string is itself, an array is its elements
  joined by commas (\<open>null\<close> as the empty string), an object is \<open>[object Object]\<close> unless
  it has a member \<open>toString\<close>, which is not callable and makes the conversion throw.
\<close>

fun to_string :: "json \<Rightarrow> thrown + jsstring"
  and join :: "json list \<Rightarrow> thrown + jsstring" where
  "to_string JNull = Inr (js ''null'')"
| "to_string (JBool b) = Inr (if b then js ''true'' else js ''false'')"
| "to_string (JNum l) = Inr (Number_toString l)"
| "to_string (JStr s) = Inr s"
| "to_string (JArr xs) = join xs"
| "to_string (JObj ms) =
     (if own_property ms (js ''toString'') = None then Inr (js ''[object Object]'')
      else Inl TypeError)"
| "join [] = Inr []"
| "join [x] = (if x = JNull then Inr [] else to_string x)"
| "join (x # y # ys) =
     (case (if x = JNull then Inr [] else to_string x) of
        Inl e \<Rightarrow> Inl e
      | Inr a \<Rightarrow> (case join (y # ys) of Inl e \<Rightarrow> Inl e | Inr b \<Rightarrow> Inr (a @ [44] @ b)))"

section \<open>Stream consumer\<close>

text \<open>
  The read loop of \<open>handleSend\<close>. Its state is the accumulated \<open>botResponse\<close>, the
  strings handed to the renderer so far (each assignment to \<open>botContentEl.innerHTML\<close>
  renders one of them, through \<open>marked.parse\<close> and \<open>DOMPurify.sanitize\<close>), and the number
  of \<open>console.error\<close> calls of the inner \<open>catch\<close>. A chunk is the text the decoder returns
  for one \<open>reader.read()\<close>.
\<close>

record stream =
  botResponse :: jsstring
  rendered :: "jsstring list"
  logged :: nat

fun split_lines :: "jsstring \<Rightarrow> jsstring list" where
  "split_lines [] = [[]]"
| "split_lines (c # cs) =
     (if c = 10 then [] # split_lines cs
      else (case split_lines cs of [] \<Rightarrow> [[c]] | l # ls \<Rightarrow> (c # l) # ls))"

text \<open>
  The condition \<open>data.choices && data.choices[0].delta && data.choices[0].delta.content\<close>
  and the string the body then appends: \<open>Inr None\<close> when the condition is falsy, \<open>Inl\<close>
  when evaluating it throws.
\<close>

definition delta_fragment :: "json \<Rightarrow> thrown + jsstring option" where
  "delta_fragment data =
     (case member (js ''choices'') (Some data) of
        Inl e \<Rightarrow> Inl e
      | Inr choices \<Rightarrow>
          if \<not> truthy choices then Inr None
          else
            (case element0 choices of
               Inl e \<Rightarrow> Inl e
             | Inr first \<Rightarrow>
                 (case member (js ''delta'') first of
                    Inl e \<Rightarrow> Inl e
                  | Inr delta \<Rightarrow>
                      if \<not> truthy delta then Inr None
                      else
                        (case member (js ''content'') delta of
                           Inl e \<Rightarrow> Inl e
                         | Inr None \<Rightarrow> Inr None
                         | Inr (Some c) \<Rightarrow>
                             if \<not> truthy (Some c) then Inr None
                             else (case to_string c of
                                     Inl e \<Rightarrow> Inl e
                                   | Inr frag \<Rightarrow> Inr (Some frag))))))"

definition handle_line :: "jsstring \<Rightarrow> stream \<Rightarrow> stream" where
  "handle_line line st =
     (if take 6 line = js ''data: '' \<and> line \<noteq> js ''data: [DONE]'' then
        (case JSON_parse (drop 6 line) of
           None \<Rightarrow> st\<lparr>logged := logged st + 1\<rparr>
         | Some data \<Rightarrow>
             (case delta_fragment data of
                Inl e \<Rightarrow> st\<lparr>logged := logged st + 1\<rparr>
              | Inr None \<Rightarrow> st
              | Inr (Some frag) \<Rightarrow>
                  st\<lparr>botResponse := botResponse st @ frag,
                     rendered := rendered st @ [botResponse st @ frag]\<rparr>))
      else st)"

fun handle_lines :: "jsstring list \<Rightarrow> stream \<Rightarrow> stream" where
  "handle_lines [] st = st"
| "handle_lines (line # ls) st = handle_lines ls (handle_line line st)"

fun read_loop :: "jsstring list \<Rightarrow> stream \<Rightarrow> stream" where
  "read_loop [] st = st"
| "read_loop (chunk # rest) st = read_loop rest (handle_lines (split_lines chunk) st)"

definition start_stream :: stream where
  "start_stream = \<lparr>botResponse = [], rendered = [], logged = 0\<rparr>"

section \<open>Session store\<close>

definition find_session :: "app \<Rightarrow> jsstring \<Rightarrow> nat option" where
  "find_session st i = find (\<lambda>r. session_id (heap st r) = i) (sessions st)"

definition showToast :: "jsstring \<Rightarrow> jsstring \<Rightarrow> app \<Rightarrow> app" where
  "showToast msg ty st = st\<lparr>toasts := toasts st @ [(msg, ty)]\<rparr>"

text \<open>
  \<open>renderHistory\<close> sorts the array in place, newest first (\<open>Array.prototype.sort\<close> is
  stable), and rebuilds the history list: one item per session, its title and whether it
  is the active one.
\<close>

definition renderHistory :: "app \<Rightarrow> app" where
  "renderHistory st =
     (let sorted = sort_key (\<lambda>r. - int (updatedAt (heap st r))) (sessions st)
      in st\<lparr>sessions := sorted,
            historyList := map (\<lambda>r. (title (heap st r),
                                        Some (session_id (heap st r)) = currentSessionId st)) sorted\<rparr>)"

definition saveSessions :: "app \<Rightarrow> app" where
  "saveSessions st = st\<lparr>ls_sessions := Some (map (heap st) (sessions st))\<rparr>"

definition updateSessionTitle :: "jsstring \<Rightarrow> jsstring \<Rightarrow> app \<Rightarrow> app" where
  "updateSessionTitle i c st =
     (case find_session st i of
        None \<Rightarrow> st
      | Some r \<Rightarrow>
          if length (messages (heap st r)) = 1
          then renderHistory (saveSessions
                 (st\<lparr>heap := (heap st)(r := (heap st r)
                        \<lparr>title := take 30 c @ (if length c > 30 then js ''...'' else [])\<rparr>)\<rparr>))
          else st)"

definition role_name :: "role \<Rightarrow> jsstring" where
  "role_name r = (case r of User \<Rightarrow> js ''user'' | Assistant \<Rightarrow> js ''assistant'')"

section \<open>Message renderer\<close>

definition copy_handler :: "jsstring \<Rightarrow> jsstring" where
  "copy_handler enc = js ''copyText('' @ [39] @ enc @ [39] @ js '')''"

text \<open>
  \<open>appendMessage\<close> encodes the content first, which may throw, and then adds the node; it
  returns the node it made. An exception leaves the state as it was when it was thrown.
\<close>

definition appendMessage :: "jsstring \<Rightarrow> jsstring \<Rightarrow> app \<Rightarrow> thrown \<times> app + nat \<times> app" where
  "appendMessage r c st =
     (case encodeURIComponent c of
        None \<Rightarrow> Inl (URIError, st)
      | Some enc \<Rightarrow>
          Inr (nextNode st,
               st\<lparr>chatMessages := chatMessages st @
                     [\<lparr>node_id = nextNode st, node_role = r, node_content = c,
                       node_onclick = copy_handler enc\<rparr>],
                  nextNode := nextNode st + 1\<rparr>))"

text \<open>
  \<open>copyText\<close>, the global function the handlers call: a malformed escape makes
  \<open>decodeURIComponent\<close> throw and nothing is copied.
\<close>

definition copyText :: "jsstring \<Rightarrow> app \<Rightarrow> app" where
  "copyText t st =
     (case decodeURIComponent t of
        None \<Rightarrow> st
      | Some decoded \<Rightarrow>
          showToast (js ''Copied to clipboard'') (js ''success'') (st\<lparr>clipboard := Some decoded\<rparr>))"

text \<open>
  A click on a copy button compiles the text of its \<open>onclick\<close> attribute as a script and
  runs it. The attribute texts of this page are \<open>copyText('\<close>, an encoded string and
  \<open>')\<close>, so they consist of \<open>copyText('\<close>, \<open>')\<close> and code units that
  \<open>encodeURIComponent\<close> emits (letters, digits, \<open>%\<close> and \<open>- _ . ! ~ * ' ( )\<close>). In such a text
  the apostrophe is the only string delimiter and nothing escapes it: when the encoded
  string has no apostrophe the script is the call of \<open>copyText\<close> on it; otherwise the
  literal ends at the first apostrophe, and with an odd number of apostrophes in the
  whole text the last literal never ends, which is a \<open>SyntaxError\<close> (nothing runs). A text
  with further, paired apostrophes is some other script, which the model does not run.
\<close>

datatype handler = Calls jsstring | Broken | Other

definition compile_handler :: "jsstring \<Rightarrow> handler" where
  "compile_handler src =
     (let n = length src; arg = take (n - 12) (drop 10 src)
      in if 12 \<le> n \<and> src = copy_handler arg \<and> 39 \<notin> set arg then Calls arg
         else if odd (length (filter (\<lambda>c. c = 39) src)) then Broken
         else Other)"

definition click_copy :: "nat \<Rightarrow> app \<Rightarrow> app" where
  "click_copy k st =
     (case find (\<lambda>n. node_id n = k) (chatMessages st) of
        None \<Rightarrow> st
      | Some n \<Rightarrow>
          (case compile_handler (node_onclick n) of
             Calls arg \<Rightarrow> copyText arg st
           | Broken \<Rightarrow> st
           | Other \<Rightarrow> st))"

section \<open>Loading and creating sessions\<close>

fun append_all :: "message list \<Rightarrow> app \<Rightarrow> thrown \<times> app + app" where
  "append_all [] st = Inr st"
| "append_all (m # ms) st =
     (case appendMessage (role_name (role m)) (content m) st of
        Inl e \<Rightarrow> Inl e
      | Inr (k, st') \<Rightarrow> append_all ms st')"

definition loadSession :: "jsstring \<Rightarrow> app \<Rightarrow> thrown \<times> app + app" where
  "loadSession i st =
     (let st1 = st\<lparr>currentSessionId := Some i, chatMessages := []\<rparr>
      in case (case find_session st1 i of
                 None \<Rightarrow> Inr st1
               | Some r \<Rightarrow> append_all (messages (heap st1 r)) st1) of
           Inl e \<Rightarrow> Inl e
         | Inr st2 \<Rightarrow> Inr (renderHistory st2))"

text \<open>\<open>createNewSession\<close> reads the clock twice: for the id and for \<open>updatedAt\<close>.\<close>

definition createNewSession :: "nat \<Rightarrow> nat \<Rightarrow> app \<Rightarrow> thrown \<times> app + app" where
  "createNewSession t_id t st =
     (let newSession = \<lparr>session_id = nat_toString t_id, title = js ''New Chat'',
                        messages = [], updatedAt = t\<rparr>;
          r = nextRef st;
          st1 = st\<lparr>heap := (heap st)(r := newSession), nextRef := r + 1,
                  sessions := sessions st @ [r]\<rparr>
      in loadSession (session_id newSession) (saveSessions st1))"

section \<open>Credential\<close>

text \<open>
  What the page cannot change: the key a bundler injected (\<open>import.meta.env\<close>), the key
  of the process environment, and the message text the engine gives its own exceptions.
\<close>

record env =
  import_meta_key :: "jsstring option"
  process_env_key :: "jsstring option"
  engine_message :: "thrown \<Rightarrow> jsstring"

definition getApiKey :: "env \<Rightarrow> app \<Rightarrow> jsstring" where
  "getApiKey ev st =
     (let key1 = (case import_meta_key ev of None \<Rightarrow> [] | Some k \<Rightarrow> k);
          key2 = (if key1 = [] then (case process_env_key ev of None \<Rightarrow> [] | Some k \<Rightarrow> k)
                  else key1)
      in if key2 = [] then (case ls_openai_key st of None \<Rightarrow> [] | Some k \<Rightarrow> k) else key2)"

text \<open>\<open>answer\<close> is what \<open>prompt\<close> returns if it is shown: \<open>None\<close> when the user cancels.\<close>

definition ensureApiKey :: "env \<Rightarrow> jsstring option \<Rightarrow> app \<Rightarrow> jsstring \<times> app" where
  "ensureApiKey ev answer st =
     (let key = getApiKey ev st
      in if key = [] then
           (let st1 = st\<lparr>prompts := prompts st + 1\<rparr>;
                userInput = (case answer of None \<Rightarrow> [] | Some u \<Rightarrow> u)
            in if userInput \<noteq> [] \<and> js_trim userInput \<noteq> []
               then (js_trim userInput,
                     showToast (js ''API Key saved securely locally.'') (js ''success'')
                       (st1\<lparr>ls_openai_key := Some (js_trim userInput)\<rparr>))
               else ([], showToast (js ''API Key is required to chat.'') (js ''error'') st1))
         else (key, st))"

section \<open>Chat controller\<close>

text \<open>
  What \<open>fetch\<close> and the response body deliver: the promise is rejected, or a response
  arrives with its status, whether its JSON body is \<open>null\<close>, the truthy \<open>error.message\<close>
  of its JSON body if it has one, whether \<open>response.body\<close> is \<open>null\<close> (a response
  without content), the chunks its reader returns, and the rejection that ends the
  reading, if any.
\<close>

record response =
  status :: nat
  json_null :: bool
  error_message :: "jsstring option"
  body_null :: bool
  chunks :: "jsstring list"
  read_failure :: "jsstring option"

datatype fetched = Rejected jsstring | Response response

definition set_node :: "nat \<Rightarrow> (node \<Rightarrow> node) \<Rightarrow> app \<Rightarrow> app" where
  "set_node k f st =
     st\<lparr>chatMessages := map (\<lambda>n. if node_id n = k then f n else n) (chatMessages st)\<rparr>"

text \<open>
  \<open>handleSend\<close> up to its first \<open>await\<close>: the user message is pushed, the title derived,
  the two nodes appended and the request issued. The result names the session object
  and the placeholder node the rest of the function holds on to, or is \<open>None\<close> when the
  function returned early.
\<close>

definition thinking :: jsstring where
  "thinking = js ''<i class=\"fas fa-circle-notch fa-spin\"></i> Thinking...''"

definition add_user_message :: "nat \<Rightarrow> jsstring \<Rightarrow> jsstring \<Rightarrow> nat \<Rightarrow> app \<Rightarrow> app" where
  "add_user_message r i c t st =
     updateSessionTitle i c
       (st\<lparr>heap := (heap st)(r := (heap st r)
              \<lparr>messages := messages (heap st r) @ [\<lparr>role = User, content = c\<rparr>],
               updatedAt := t\<rparr>)\<rparr>)"

definition send_request :: "jsstring \<Rightarrow> nat \<Rightarrow> jsstring \<Rightarrow> app \<Rightarrow> thrown \<times> app + (nat \<times> nat) option \<times> app" where
  "send_request apiKey r c st =
     (case appendMessage (js ''user'') c st of
        Inl e \<Rightarrow> Inl e
      | Inr (k0, st1) \<Rightarrow>
          (case appendMessage (js ''bot'') thinking
                  (st1\<lparr>chatInput_value := [], sendBtn_disabled := True\<rparr>) of
             Inl e \<Rightarrow> Inl e
           | Inr (k, st2) \<Rightarrow>
               Inr (Some (r, k),
                    st2\<lparr>fetch_log := fetch_log st2 @
                          [\<lparr>req_key = apiKey, req_messages = messages (heap st2 r)\<rparr>]\<rparr>)))"

definition handleSend_begin ::
  "env \<Rightarrow> jsstring option \<Rightarrow> nat \<Rightarrow> nat \<Rightarrow> nat \<Rightarrow> app \<Rightarrow> thrown \<times> app + (nat \<times> nat) option \<times> app" where
  "handleSend_begin ev answer t_id t_new t st =
     (let c = js_trim (chatInput_value st)
      in if c = [] then Inr (None, st)
         else
           (case ensureApiKey ev answer st of
              (apiKey, st1) \<Rightarrow>
                if apiKey = [] then Inr (None, st1)
                else
                  (case (if currentSessionId st1 = None \<or> currentSessionId st1 = Some []
                         then createNewSession t_id t_new st1 else Inr st1) of
                     Inl e \<Rightarrow> Inl e
                   | Inr st2 \<Rightarrow>
                       (case currentSessionId st2 of
                          None \<Rightarrow> Inl (TypeError, st2)
                        | Some i \<Rightarrow>
                            (case find_session st2 i of
                               None \<Rightarrow> Inl (TypeError, st2)
                             | Some r \<Rightarrow> send_request apiKey r c (add_user_message r i c t st2))))))"

text \<open>
  The rest of \<open>handleSend\<close>, once \<open>fetch\<close> has settled: the body of the \<open>try\<close> as a
  function that returns the exception it throws, then \<open>catch\<close> and \<open>finally\<close>. Reading
  \<open>errorData.error\<close> of a body that is \<open>null\<close>, and calling \<open>getReader\<close> on a body
  that is \<open>null\<close>, throw a \<open>TypeError\<close>.
\<close>

definition http_error :: "response \<Rightarrow> jsstring" where
  "http_error resp =
     (case error_message resp of
        Some m \<Rightarrow> m
      | None \<Rightarrow> js ''HTTP error! status: '' @ nat_toString (status resp))"

definition commit_reply :: "nat \<Rightarrow> nat \<Rightarrow> jsstring \<Rightarrow> nat \<Rightarrow> app \<Rightarrow> thrown \<times> app + app" where
  "commit_reply r k reply t st =
     (let st1 = saveSessions
                  (st\<lparr>heap := (heap st)(r := (heap st r)
                         \<lparr>messages := messages (heap st r) @ [\<lparr>role = Assistant, content = reply\<rparr>],
                          updatedAt := t\<rparr>)\<rparr>)
      in case encodeURIComponent reply of
           None \<Rightarrow> Inl (URIError, st1)
         | Some enc \<Rightarrow> Inr (set_node k (\<lambda>n. n\<lparr>node_onclick := copy_handler enc\<rparr>) st1))"

definition try_body :: "nat \<Rightarrow> nat \<Rightarrow> fetched \<Rightarrow> nat \<Rightarrow> app \<Rightarrow> thrown \<times> app + app" where
  "try_body r k res t st =
     (case res of
        Rejected m \<Rightarrow> Inl (Error m, st)
      | Response resp \<Rightarrow>
          if \<not> (200 \<le> status resp \<and> status resp \<le> 299) then
            (if status resp = 401
             then Inl (Error (js ''Invalid API Key. Please refresh and enter a valid key.''),
                       st\<lparr>ls_openai_key := None\<rparr>)
             else if json_null resp then Inl (TypeError, st)
             else Inl (Error (http_error resp), st))
          else if body_null resp then Inl (TypeError, st)
          else
            (let s = read_loop (chunks resp) start_stream;
                 st1 = set_node k (\<lambda>n. n\<lparr>node_content := (if rendered s = [] then []
                                                             else last (rendered s))\<rparr>)
                         (st\<lparr>console_errors := console_errors st + logged s\<rparr>)
             in case read_failure resp of
                  Some m \<Rightarrow> Inl (Error m, st1)
                | None \<Rightarrow> commit_reply r k (botResponse s) t st1))"

definition message_of :: "env \<Rightarrow> thrown \<Rightarrow> jsstring" where
  "message_of ev e = (case e of Error m \<Rightarrow> m | other \<Rightarrow> engine_message ev other)"

definition handleSend_finish :: "env \<Rightarrow> nat \<Rightarrow> nat \<Rightarrow> fetched \<Rightarrow> nat \<Rightarrow> app \<Rightarrow> app" where
  "handleSend_finish ev r k res t st =
     (let st1 = (case try_body r k res t st of
                   Inr st' \<Rightarrow> st'
                 | Inl (e, st') \<Rightarrow>
                     showToast (message_of ev e) (js ''error'')
                       (set_node k (\<lambda>n. n\<lparr>node_content := js ''**Error:** '' @ message_of ev e\<rparr>)
                          (st'\<lparr>console_errors := console_errors st' + 1\<rparr>)))
      in st1\<lparr>sendBtn_disabled := False\<rparr>)"

section \<open>Regular expressions\<close>

text \<open>
  The constructs that the four patterns of the redact handler use: a character class
  under a greedy quantifier \<open>{lo,hi}\<close> (a single character is \<open>{1,1}\<close>, \<open>?\<close> is \<open>{0,1}\<close>,
  \<open>+\<close> is \<open>{1,}\<close>), the word boundary, sequence, alternation and the capturing group. A
  matcher state is the code unit before the current position, if any, the rest of the
  input, and the text of capture group 1.
\<close>

datatype regex =
    Chars "nat \<Rightarrow> bool" nat "nat option"
  | Boundary
  | Seq regex regex
  | Alt regex regex
  | Group regex

type_synonym mstate = "nat option \<times> jsstring \<times> jsstring option"

definition is_word :: "nat \<Rightarrow> bool" where
  "is_word c \<longleftrightarrow> (97 \<le> c \<and> c \<le> 122) \<or> (65 \<le> c \<and> c \<le> 90) \<or> is_digit c \<or> c = 95"

definition word_before :: "nat option \<Rightarrow> bool" where
  "word_before prev = (case prev of None \<Rightarrow> False | Some c \<Rightarrow> is_word c)"

definition word_next :: "jsstring \<Rightarrow> bool" where
  "word_next s = (case s of [] \<Rightarrow> False | c # r \<Rightarrow> is_word c)"

definition last_before :: "nat option \<Rightarrow> jsstring \<Rightarrow> nat option" where
  "last_before prev w = (if w = [] then prev else Some (last w))"

text \<open>
  All the ways a pattern can match at a state, in the order a backtracking engine tries
  them: a greedy quantifier takes the longest run first and gives code units back one by
  one, an alternation tries its left side first, a sequence tries every way of its
  second part after each way of its first. The engine's match is the first of them.
\<close>

fun paths :: "regex \<Rightarrow> mstate \<Rightarrow> mstate list" where
  "paths (Chars cls lo hi) (prev, s, cap) =
     (let avail = length (takeWhile cls s);
          top = (case hi of None \<Rightarrow> avail | Some h \<Rightarrow> min h avail)
      in map (\<lambda>n. (last_before prev (take n s), drop n s, cap)) (rev [lo ..< Suc top]))"
| "paths Boundary (prev, s, cap) = (if word_before prev \<noteq> word_next s then [(prev, s, cap)] else [])"
| "paths (Seq r1 r2) st = concat (map (paths r2) (paths r1 st))"
| "paths (Alt r1 r2) st = paths r1 st @ paths r2 st"
| "paths (Group r) (prev, s, cap) =
     map (\<lambda>(prev', s', cap'). (prev', s', Some (take (length s - length s') s)))
         (paths r (prev, s, cap))"

text \<open>A match attempt at a position: the number of code units matched and the capture.\<close>

definition match_at :: "regex \<Rightarrow> nat option \<Rightarrow> jsstring \<Rightarrow> (nat \<times> jsstring option) option" where
  "match_at r prev s =
     (case paths r (prev, s, None) of
        [] \<Rightarrow> None
      | (prev', s', cap) # rest \<Rightarrow> Some (length s - length s', cap))"

text \<open>
  \<open>String.prototype.replace\<close> with a global pattern: the matches are found from left to
  right, each search starting where the last match ended (one further after an empty
  match), and each is replaced by what \<open>f\<close> makes of its capture. \<open>skip\<close> counts the code
  units of the current match that are still to be passed over.
\<close>

fun replace_from :: "regex \<Rightarrow> (jsstring option \<Rightarrow> jsstring) \<Rightarrow> nat \<Rightarrow> nat option \<Rightarrow> jsstring \<Rightarrow> jsstring" where
  "replace_from r f skip prev [] =
     (if skip = 0 then (case match_at r prev [] of None \<Rightarrow> [] | Some (n, cap) \<Rightarrow> f cap) else [])"
| "replace_from r f skip prev (c # cs) =
     (if skip = 0 then
        (case match_at r prev (c # cs) of
           None \<Rightarrow> c # replace_from r f 0 (Some c) cs
         | Some (n, cap) \<Rightarrow>
             f cap @ (if n = 0 then c # replace_from r f 0 (Some c) cs
                      else replace_from r f (n - 1) (Some c) cs))
      else replace_from r f (skip - 1) (Some c) cs)"

definition replace_all :: "regex \<Rightarrow> (jsstring option \<Rightarrow> jsstring) \<Rightarrow> jsstring \<Rightarrow> jsstring" where
  "replace_all r f s = replace_from r f 0 None s"

section \<open>Redactor\<close>

definition one :: "(nat \<Rightarrow> bool) \<Rightarrow> regex" where
  "one cls = Chars cls 1 (Some 1)"

definition opt :: "(nat \<Rightarrow> bool) \<Rightarrow> regex" where
  "opt cls = Chars cls 0 (Some 1)"

fun seq :: "regex list \<Rightarrow> regex" where
  "seq [] = Chars (\<lambda>c. False) 0 (Some 0)"
| "seq [r] = r"
| "seq (r # rs) = Seq r (seq rs)"

text \<open>A literal under the flag \<open>i\<close>: each letter matches itself and its upper case.\<close>

definition ignore_case :: "string \<Rightarrow> regex" where
  "ignore_case w = seq (map (\<lambda>c. one (\<lambda>x. x = of_char c \<or> x + 32 = of_char c)) w)"

definition is_alpha :: "nat \<Rightarrow> bool" where
  "is_alpha c \<longleftrightarrow> (97 \<le> c \<and> c \<le> 122) \<or> (65 \<le> c \<and> c \<le> 90)"

definition is_alnum :: "nat \<Rightarrow> bool" where
  "is_alnum c \<longleftrightarrow> is_alpha c \<or> is_digit c"

definition emailRegex :: regex where
  "emailRegex =
     seq [Chars (\<lambda>c. is_alnum c \<or> c \<in> {46, 95, 37, 43, 45}) 1 None,
          one (\<lambda>c. c = 64),
          Chars (\<lambda>c. is_alnum c \<or> c \<in> {46, 45}) 1 None,
          one (\<lambda>c. c = 46),
          Chars is_alpha 2 None]"

definition separator :: "nat \<Rightarrow> bool" where
  "separator c \<longleftrightarrow> c = 45 \<or> c = 46 \<or> is_js_space c"

definition phoneRegex :: regex where
  "phoneRegex =
     seq [opt (\<lambda>c. c = 43),
          Chars is_digit 1 (Some 3),
          opt separator,
          opt (\<lambda>c. c = 40),
          Chars is_digit 1 (Some 3),
          opt (\<lambda>c. c = 41),
          opt separator,
          Chars is_digit 3 (Some 4),
          opt separator,
          Chars is_digit 4 (Some 4)]"

definition ipRegex :: regex where
  "ipRegex =
     seq [Boundary,
          Chars is_digit 1 (Some 3), one (\<lambda>c. c = 46),
          Chars is_digit 1 (Some 3), one (\<lambda>c. c = 46),
          Chars is_digit 1 (Some 3), one (\<lambda>c. c = 46),
          Chars is_digit 1 (Some 3),
          Boundary]"

definition secretRegex :: regex where
  "secretRegex =
     seq [Group (Alt (ignore_case ''bearer'')
                (Alt (seq [ignore_case ''api'', opt (\<lambda>c. c = 95 \<or> c = 45), ignore_case ''key''])
                (Alt (ignore_case ''secret'')
                (Alt (ignore_case ''token'') (ignore_case ''password''))))),
          Chars (\<lambda>c. is_js_space c \<or> c = 58 \<or> c = 61) 1 None,
          opt (\<lambda>c. c = 34 \<or> c = 39),
          Chars (\<lambda>c. is_alnum c \<or> c = 45 \<or> c = 95) 16 None,
          opt (\<lambda>c. c = 34 \<or> c = 39)]"

text \<open>The four substitutions of the handler, in its order.\<close>

definition redact :: "jsstring \<Rightarrow> jsstring" where
  "redact str =
     replace_all secretRegex (\<lambda>cap. (case cap of None \<Rightarrow> [] | Some w \<Rightarrow> w) @ js '': [REDACTED_SECRET]'')
       (replace_all ipRegex (\<lambda>cap. js ''[REDACTED_IP]'')
          (replace_all phoneRegex (\<lambda>cap. js ''[REDACTED_PHONE]'')
             (replace_all emailRegex (\<lambda>cap. js ''[REDACTED_EMAIL]'') str)))"

text \<open>
  The click handler of the redact button. The value it reads back from the input box is
  the one it has just assigned; \<open>||\<close> evaluates its right operand when the left one is
  false.
\<close>

definition redact_click :: "app \<Rightarrow> app" where
  "redact_click st =
     (if chatInput_value st = []
      then showToast (js ''Nothing to redact in the input box'') (js ''error'') st
      else
        let originalLen = length (chatInput_value st);
            redacted = redact (chatInput_value st);
            st1 = st\<lparr>chatInput_value := redacted\<rparr>
        in if (if length redacted \<noteq> originalLen then True
               else redacted \<noteq> chatInput_value st1)
           then showToast (js ''PII and Secrets Redacted from input'') (js ''success'') st1
           else showToast (js ''No PII/Secrets found in input'') (js ''success'') st1)"

text \<open>
  The click handler of the export button; the download it starts is outside the state.
  A current id that no session has makes the handler throw before its toast.
\<close>

definition export_click :: "app \<Rightarrow> app" where
  "export_click st =
     (case currentSessionId st of
        None \<Rightarrow> showToast (js ''No active chat to export'') (js ''error'') st
      | Some i \<Rightarrow>
          if i = [] then showToast (js ''No active chat to export'') (js ''error'') st
          else (case find_session st i of
                  None \<Rightarrow> st
                | Some r \<Rightarrow> showToast (js ''Chat exported securely'') (js ''success'') st))"

section \<open>The page as a transition system\<close>

text \<open>
  The script's first statements: the sessions are read from storage into fresh objects
  and the history is rendered.
\<close>

definition blank :: session where
  "blank = \<lparr>session_id = [], title = [], messages = [], updatedAt = 0\<rparr>"

definition init_app :: "session list option \<Rightarrow> jsstring option \<Rightarrow> app" where
  "init_app stored key =
     (let ss = (case stored of None \<Rightarrow> [] | Some l \<Rightarrow> l)
      in renderHistory
           \<lparr>heap = (\<lambda>r. if r < length ss then ss ! r else blank),
            nextRef = length ss,
            sessions = [0 ..< length ss],
            currentSessionId = None,
            ls_sessions = stored,
            ls_openai_key = key,
            chatMessages = [],
            nextNode = 0,
            historyList = [],
            toasts = [],
            console_errors = 0,
            chatInput_value = [],
            sendBtn_disabled = True,
            fetch_log = [],
            prompts = 0,
            clipboard = None\<rparr>)"

text \<open>
  The events of the page. \<open>handleSend\<close> is two events, since other handlers run while it
  awaits the response: \<open>SendFinish\<close> carries the session object and the node that the
  suspended call holds on to. An exception that leaves a handler ends it; the state stays
  as it was at the throw.
\<close>

datatype event =
    NewChat nat nat
  | OpenSession nat
  | Input jsstring
  | SendBegin "jsstring option" nat nat nat
  | SendFinish nat nat fetched nat
  | CopyClick nat
  | Redact
  | Export

definition settle :: "thrown \<times> app + app \<Rightarrow> app" where
  "settle x = (case x of Inl (e, st) \<Rightarrow> st | Inr st \<Rightarrow> st)"

definition settle_send :: "thrown \<times> app + (nat \<times> nat) option \<times> app \<Rightarrow> app" where
  "settle_send x = (case x of Inl (e, st) \<Rightarrow> st | Inr (h, st) \<Rightarrow> st)"

fun apply_event :: "env \<Rightarrow> event \<Rightarrow> app \<Rightarrow> app" where
  "apply_event ev (NewChat t_id t) st = settle (createNewSession t_id t st)"
| "apply_event ev (OpenSession r) st = settle (loadSession (session_id (heap st r)) st)"
| "apply_event ev (Input v) st = st\<lparr>chatInput_value := v, sendBtn_disabled := (js_trim v = [])\<rparr>"
| "apply_event ev (SendBegin answer t_id t_new t) st =
     settle_send (handleSend_begin ev answer t_id t_new t st)"
| "apply_event ev (SendFinish r k res t) st = handleSend_finish ev r k res t st"
| "apply_event ev (CopyClick k) st = click_copy k st"
| "apply_event ev Redact st = redact_click st"
| "apply_event ev Export st = export_click st"

fun run_events :: "env \<Rightarrow> event list \<Rightarrow> app \<Rightarrow> app" where
  "run_events ev [] st = st"
| "run_events ev (e # es) st = run_events ev es (apply_event ev e st)"

section \<open>Session objects under the operations\<close>

lemma find_session_heap:
  "(\<And>q. session_id (h q) = session_id (heap st q)) \<Longrightarrow> find_session (st\<lparr>heap := h\<rparr>) i = find_session st i"
  by (simp add: find_session_def)

lemma heap_renderHistory [simp]: "heap (renderHistory st) = heap st"
  by (simp add: renderHistory_def Let_def)

lemma nextRef_renderHistory [simp]: "nextRef (renderHistory st) = nextRef st"
  by (simp add: renderHistory_def Let_def)

lemma currentSessionId_renderHistory [simp]: "currentSessionId (renderHistory st) = currentSessionId st"
  by (simp add: renderHistory_def Let_def)

lemma heap_saveSessions [simp]: "heap (saveSessions st) = heap st"
  by (simp add: saveSessions_def)

lemma nextRef_saveSessions [simp]: "nextRef (saveSessions st) = nextRef st"
  by (simp add: saveSessions_def)

lemma heap_showToast [simp]: "heap (showToast m ty st) = heap st"
  by (simp add: showToast_def)

lemma nextRef_showToast [simp]: "nextRef (showToast m ty st) = nextRef st"
  by (simp add: showToast_def)

lemma heap_set_node [simp]: "heap (set_node k f st) = heap st"
  by (simp add: set_node_def)

lemma nextRef_set_node [simp]: "nextRef (set_node k f st) = nextRef st"
  by (simp add: set_node_def)

definition derived_title :: "jsstring \<Rightarrow> jsstring" where
  "derived_title c = (if 30 < length c then take 30 c @ js ''...'' else c)"

lemma derived_title_eq: "take 30 c @ (if 30 < length c then js ''...'' else []) = derived_title c"
  by (simp add: derived_title_def)

lemma add_user_message_first:
  assumes "find_session st i = Some r" and "messages (heap st r) = []"
  shows "title (heap (add_user_message r i c t st) r) = derived_title c"
proof -
  let ?h = "(heap st)(r := (heap st r)\<lparr>messages := messages (heap st r) @ [\<lparr>role = User, content = c\<rparr>], updatedAt := t\<rparr>)"
  have "find_session (st\<lparr>heap := ?h\<rparr>) i = Some r"
    using assms(1) by (simp add: find_session_heap)
  then show ?thesis
    using assms(2) by (simp add: add_user_message_def updateSessionTitle_def derived_title_def)
qed

lemma add_user_message_messages:
  assumes "find_session st i = Some r"
  shows "messages (heap (add_user_message r i c t st) q) =
           (if q = r then messages (heap st r) @ [\<lparr>role = User, content = c\<rparr>] else messages (heap st q))"
    and "nextRef (add_user_message r i c t st) = nextRef st"
proof -
  let ?h = "(heap st)(r := (heap st r)\<lparr>messages := messages (heap st r) @ [\<lparr>role = User, content = c\<rparr>], updatedAt := t\<rparr>)"
  have f: "find_session (st\<lparr>heap := ?h\<rparr>) i = Some r"
    using assms(1) by (simp add: find_session_heap)
  show "messages (heap (add_user_message r i c t st) q) =
           (if q = r then messages (heap st r) @ [\<lparr>role = User, content = c\<rparr>] else messages (heap st q))"
    using f by (simp add: add_user_message_def updateSessionTitle_def)
  show "nextRef (add_user_message r i c t st) = nextRef st"
    using f by (simp add: add_user_message_def updateSessionTitle_def)
qed

lemma add_user_message_title:
  assumes "find_session st i = Some r"
  shows "title (heap (add_user_message r i c t st) q) =
           (if q = r \<and> messages (heap st r) = [] then derived_title c else title (heap st q))"
proof -
  let ?h = "(heap st)(r := (heap st r)\<lparr>messages := messages (heap st r) @ [\<lparr>role = User, content = c\<rparr>], updatedAt := t\<rparr>)"
  have f: "find_session (st\<lparr>heap := ?h\<rparr>) i = Some r"
    using assms(1) by (simp add: find_session_heap)
  show ?thesis
    using f by (simp add: add_user_message_def updateSessionTitle_def derived_title_def)
qed

lemma appendMessage_objects:
  "appendMessage ro c st = Inr (k, st') \<Longrightarrow> heap st' = heap st \<and> nextRef st' = nextRef st \<and> sessions st' = sessions st \<and> currentSessionId st' = currentSessionId st"
  "appendMessage ro c st = Inl (e, st') \<Longrightarrow> st' = st"
  by (auto simp: appendMessage_def split: option.splits)

lemma append_all_objects:
  "append_all ms st = Inr st' \<Longrightarrow> heap st' = heap st \<and> nextRef st' = nextRef st \<and> sessions st' = sessions st \<and> currentSessionId st' = currentSessionId st"
  "append_all ms st = Inl (e, st') \<Longrightarrow> heap st' = heap st \<and> nextRef st' = nextRef st \<and> sessions st' = sessions st \<and> currentSessionId st' = currentSessionId st"
proof (induction ms arbitrary: st)
  case Nil
  { case 1 then show ?case by simp }
  { case 2 then show ?case by simp }
next
  case (Cons m ms)
  { case 1 then show ?case
      using Cons.IH(1) by (auto split: sum.splits prod.splits dest!: appendMessage_objects) }
  { case 2 then show ?case
      using Cons.IH(2) by (auto split: sum.splits prod.splits dest!: appendMessage_objects) }
qed

lemma loadSession_objects:
  "loadSession i st = Inr st' \<Longrightarrow> heap st' = heap st \<and> nextRef st' = nextRef st \<and> currentSessionId st' = Some i"
  "loadSession i st = Inl (e, st') \<Longrightarrow> heap st' = heap st \<and> nextRef st' = nextRef st \<and> currentSessionId st' = Some i"
  by (auto simp: loadSession_def Let_def split: sum.splits option.splits dest!: append_all_objects)

lemma createNewSession_objects:
  "createNewSession t_id t st = Inr st' \<or> createNewSession t_id t st = Inl (e, st') \<Longrightarrow>
     heap st' = (heap st)(nextRef st := \<lparr>session_id = nat_toString t_id, title = js ''New Chat'', messages = [], updatedAt = t\<rparr>)
     \<and> nextRef st' = nextRef st + 1"
  by (auto simp: createNewSession_def Let_def saveSessions_def dest!: loadSession_objects)

lemma ensureApiKey_objects:
  "ensureApiKey ev a st = (key, st') \<Longrightarrow> heap st' = heap st \<and> nextRef st' = nextRef st"
  by (auto simp: ensureApiKey_def Let_def split: if_splits)

lemma send_request_objects:
  "send_request key r c st = Inr (h, st') \<Longrightarrow> heap st' = heap st \<and> nextRef st' = nextRef st \<and> (\<exists>k. h = Some (r, k))"
  "send_request key r c st = Inl (e, st') \<Longrightarrow> heap st' = heap st \<and> nextRef st' = nextRef st"
  by (auto simp: send_request_def split: sum.splits prod.splits dest!: appendMessage_objects)


definition step_ok :: "nat \<Rightarrow> app \<Rightarrow> app \<Rightarrow> bool" where
  "step_ok r st st' \<longleftrightarrow>
     nextRef st \<le> nextRef st' \<and>
     (r < nextRef st \<longrightarrow>
        (title (heap st' r) = title (heap st r) \<and> (messages (heap st r) \<noteq> [] \<longrightarrow> messages (heap st' r) \<noteq> []))
        \<or> (messages (heap st r) = [] \<and>
            (\<exists>c. messages (heap st' r) = [\<lparr>role = User, content = c\<rparr>] \<and> title (heap st' r) = derived_title c)))"

definition kept :: "nat \<Rightarrow> app \<Rightarrow> app \<Rightarrow> bool" where
  "kept r st st' \<longleftrightarrow> nextRef st \<le> nextRef st' \<and> (r < nextRef st \<longrightarrow> heap st' r = heap st r)"

lemma kept_same: "heap st' = heap st \<Longrightarrow> nextRef st' = nextRef st \<Longrightarrow> kept r st st'"
  by (simp add: kept_def)

lemma kept_trans: "kept r st st1 \<Longrightarrow> kept r st1 st2 \<Longrightarrow> kept r st st2"
  by (auto simp: kept_def)

lemma kept_step_ok: "kept r st st' \<Longrightarrow> step_ok r st st'"
  by (auto simp: kept_def step_ok_def)

lemma kept_then_step_ok: "kept r st st1 \<Longrightarrow> step_ok r st1 st' \<Longrightarrow> step_ok r st st'"
  by (auto simp: kept_def step_ok_def)

lemma step_ok_then_kept: "step_ok r st st1 \<Longrightarrow> kept r st1 st' \<Longrightarrow> step_ok r st st'"
  by (auto simp: kept_def step_ok_def)

lemma kept_create:
  "createNewSession t_id t st = Inr st' \<or> createNewSession t_id t st = Inl (e, st') \<Longrightarrow> kept r st st'"
  by (drule createNewSession_objects) (simp add: kept_def)

lemma step_ok_add_user_message:
  "find_session st i = Some q \<Longrightarrow> step_ok r st (add_user_message q i c t st)"
  by (simp add: step_ok_def add_user_message_messages add_user_message_title)

lemma step_ok_begin:
  "step_ok r st (settle_send (handleSend_begin ev answer t_id t_new t st))"
proof -
  let ?c = "js_trim (chatInput_value st)"
  obtain key st1 where k: "ensureApiKey ev answer st = (key, st1)"
    by (cases "ensureApiKey ev answer st")
  then have s1: "kept r st st1"
    by (auto dest: ensureApiKey_objects intro: kept_same)
  show ?thesis
  proof (cases "?c = [] \<or> key = []")
    case True
    then have "settle_send (handleSend_begin ev answer t_id t_new t st) = st
             \<or> settle_send (handleSend_begin ev answer t_id t_new t st) = st1"
      using k by (auto simp: handleSend_begin_def Let_def settle_send_def)
    then show ?thesis
      using s1 by (auto simp: kept_same intro!: kept_step_ok)
  next
    case False
    define res where "res = (if currentSessionId st1 = None \<or> currentSessionId st1 = Some []
                         then createNewSession t_id t_new st1 else Inr st1)"
    show ?thesis
    proof (cases res)
      case (Inl a)
      obtain e st2 where a: "a = (e, st2)" by (cases a)
      have "createNewSession t_id t_new st1 = Inl (e, st2)"
        using Inl a by (auto simp: res_def split: if_splits)
      then have "kept r st1 st2" by (auto intro: kept_create)
      then have "kept r st st2" using s1 by (auto intro: kept_trans)
      moreover have "settle_send (handleSend_begin ev answer t_id t_new t st) = st2"
        using False k Inl a by (simp add: handleSend_begin_def Let_def settle_send_def res_def[symmetric])
      ultimately show ?thesis by (simp add: kept_step_ok)
    next
      case (Inr st2)
      have "kept r st1 st2"
        using Inr by (auto simp: res_def split: if_splits intro: kept_create kept_same)
      then have b: "kept r st st2" using s1 by (auto intro: kept_trans)
      show ?thesis
      proof (cases "currentSessionId st2")
        case None
        then have "settle_send (handleSend_begin ev answer t_id t_new t st) = st2"
          using False k Inr by (simp add: handleSend_begin_def Let_def settle_send_def res_def[symmetric])
        then show ?thesis using b by (simp add: kept_step_ok)
      next
        case (Some i)
        show ?thesis
        proof (cases "find_session st2 i")
          case None
          then have "settle_send (handleSend_begin ev answer t_id t_new t st) = st2"
            using False k Inr Some by (simp add: handleSend_begin_def Let_def settle_send_def res_def[symmetric])
          then show ?thesis using b by (simp add: kept_step_ok)
        next
          case (Some q)
          let ?st3 = "add_user_message q i ?c t st2"
          have c: "step_ok r st2 ?st3" using Some by (rule step_ok_add_user_message)
          have d: "kept r ?st3 (settle_send (send_request key q ?c ?st3))"
            by (cases "send_request key q ?c ?st3")
               (auto simp: settle_send_def dest: send_request_objects intro: kept_same)
          have e: "settle_send (handleSend_begin ev answer t_id t_new t st) = settle_send (send_request key q ?c ?st3)"
            using False k Inr \<open>currentSessionId st2 = Some i\<close> Some
            by (simp add: handleSend_begin_def Let_def res_def[symmetric])
          have "step_ok r st ?st3"
            using b c by (rule kept_then_step_ok)
          then show ?thesis
            using d e by (auto intro: step_ok_then_kept)
        qed
      qed
    qed
  qed
qed


lemma step_ok_finish: "step_ok r st (handleSend_finish ev q k res t st)"
proof -
  have "step_ok r st (settle (try_body q k res t st))"
    by (auto simp: try_body_def commit_reply_def settle_def step_ok_def Let_def
             split: fetched.splits option.splits)
  moreover have "kept r (settle (try_body q k res t st)) (handleSend_finish ev q k res t st)"
    by (cases "try_body q k res t st")
       (auto simp: handleSend_finish_def settle_def Let_def kept_def)
  ultimately show ?thesis by (rule step_ok_then_kept)
qed

lemma step_ok_event: "step_ok r st (apply_event ev e st)"
proof (cases e)
  case (NewChat t_id t)
  then show ?thesis
    by (cases "createNewSession t_id t st")
       (auto simp: settle_def intro!: kept_step_ok kept_create)
next
  case (OpenSession q)
  then show ?thesis
    by (cases "loadSession (session_id (heap st q)) st")
       (auto simp: settle_def dest!: loadSession_objects intro!: kept_step_ok kept_same)
next
  case (Input v)
  then show ?thesis by (simp add: step_ok_def)
next
  case (SendBegin answer t_id t_new t)
  then show ?thesis by (simp add: step_ok_begin)
next
  case (SendFinish q k res t)
  then show ?thesis by (simp add: step_ok_finish)
next
  case (CopyClick k)
  then show ?thesis
    by (auto simp: click_copy_def copyText_def step_ok_def split: option.splits handler.splits)
next
  case Redact
  then show ?thesis
    by (simp add: redact_click_def step_ok_def Let_def)
next
  case Export
  then show ?thesis
    by (auto simp: export_click_def step_ok_def split: option.splits)
qed

lemma frozen_run:
  "r < nextRef st \<Longrightarrow> messages (heap st r) \<noteq> [] \<Longrightarrow>
     title (heap (run_events ev es st) r) = title (heap st r) \<and> messages (heap (run_events ev es st) r) \<noteq> []"
proof (induction es arbitrary: st)
  case Nil
  then show ?case by simp
next
  case (Cons e es)
  have s: "step_ok r st (apply_event ev e st)" by (rule step_ok_event)
  then have "r < nextRef (apply_event ev e st)" "messages (heap (apply_event ev e st) r) \<noteq> []"
    "title (heap (apply_event ev e st) r) = title (heap st r)"
    using Cons.prems by (auto simp: step_ok_def)
  then show ?case using Cons.IH[of "apply_event ev e st"] by simp
qed

section \<open>A concrete run\<close>

text \<open>
  A page without injected keys and with empty storage; the user types a question, enters
  a key at the prompt, and the upstream answers with one fragment and the terminator.
\<close>

definition demo_env :: env where
  "demo_env = \<lparr>import_meta_key = None, process_env_key = None,
                engine_message = (\<lambda>e. js ''URI malformed'')\<rparr>"

definition record_line :: "jsstring \<Rightarrow> jsstring" where
  "record_line frag = js ''data: {\"choices\":[{\"delta\":{\"content\":\"'' @ frag @ js ''\"}}]}''"

definition reply_four :: fetched where
  "reply_four = Response \<lparr>status = 200, json_null = False, error_message = None,
                  body_null = False,
                  chunks = [record_line (js ''4'') @ [10, 10] @ js ''data: [DONE]'' @ [10, 10]],
                  read_failure = None\<rparr>"

definition asked :: app where
  "asked = run_events demo_env
             [Input (js ''What is 2+2?''), SendBegin (Some (js ''sk-demo'')) 1000 1000 1001]
             (init_app None None)"

definition answered :: app where
  "answered = apply_event demo_env (SendFinish 0 1 reply_four 1002) asked"

section \<open>Title derivation\<close>

lemma handleSend_begin_sent:
  assumes "handleSend_begin ev answer t_id t_new t st = Inr (Some (r, k), st')"
  shows "\<exists>st2 i. find_session st2 i = Some r
           \<and> heap st' = heap (add_user_message r i (js_trim (chatInput_value st)) t st2)"
proof -
  let ?c = "js_trim (chatInput_value st)"
  obtain key st1 where k: "ensureApiKey ev answer st = (key, st1)"
    by (cases "ensureApiKey ev answer st")
  define res where "res = (if currentSessionId st1 = None \<or> currentSessionId st1 = Some []
                         then createNewSession t_id t_new st1 else Inr st1)"
  from assms k have nz: "?c \<noteq> []" "key \<noteq> []"
    by (auto simp: handleSend_begin_def Let_def split: if_splits)
  from assms k nz obtain st2 where r2: "res = Inr st2"
    by (cases res) (auto simp: handleSend_begin_def Let_def res_def[symmetric])
  from assms k nz r2 obtain i where i: "currentSessionId st2 = Some i"
    by (cases "currentSessionId st2") (auto simp: handleSend_begin_def Let_def res_def[symmetric])
  from assms k nz r2 i obtain q where q: "find_session st2 i = Some q"
    by (cases "find_session st2 i") (auto simp: handleSend_begin_def Let_def res_def[symmetric])
  from assms k nz r2 i q
  have s: "send_request key q ?c (add_user_message q i ?c t st2) = Inr (Some (r, k), st')"
    by (simp add: handleSend_begin_def Let_def res_def[symmetric])
  then have "heap st' = heap (add_user_message q i ?c t st2)" "q = r"
    by (auto dest: send_request_objects)
  then show ?thesis using q by blast
qed

text \<open>
  C6. When \<open>handleSend\<close> has issued its request and the session it wrote to then holds
  exactly one message, that message is the trimmed input as a user message, and the
  session's title is the input's first 30 code units followed by \<open>...\<close> if the input is
  longer than 30, and the input itself otherwise.
\<close>

theorem title_truncation:
  assumes "handleSend_begin ev answer t_id t_new t st = Inr (Some (r, k), st')"
    and "length (messages (heap st' r)) = 1"
  shows "messages (heap st' r) = [\<lparr>role = User, content = js_trim (chatInput_value st)\<rparr>]
       \<and> title (heap st' r) =
           (if 30 < length (js_trim (chatInput_value st))
            then take 30 (js_trim (chatInput_value st)) @ js ''...''
            else js_trim (chatInput_value st))"
proof -
  from handleSend_begin_sent[OF assms(1)] obtain st2 i where
    f: "find_session st2 i = Some r" and
    h: "heap st' = heap (add_user_message r i (js_trim (chatInput_value st)) t st2)"
    by blast
  from assms(2) h f have e: "messages (heap st2 r) = []"
    by (simp add: add_user_message_messages)
  show ?thesis
    using h f e by (simp add: add_user_message_messages add_user_message_title derived_title_def)
qed

definition long_question :: jsstring where
  "long_question = js ''Please explain closures in JavaScript to me!?''"

lemmas model =
  handleSend_begin_def handleSend_finish_def try_body_def commit_reply_def set_node_def
  message_of_def http_error_def ensureApiKey_def getApiKey_def demo_env_def init_app_def
  renderHistory_def showToast_def js_trim_def is_js_space_def createNewSession_def
  loadSession_def saveSessions_def find_session_def send_request_def add_user_message_def
  updateSessionTitle_def appendMessage_def copy_handler_def thinking_def nat_toString_def
  digits10.simps uriUnescaped_def percent_escape_def utf8_octets_def hex_digit_def
  settle_def settle_send_def role_name_def blank_def Let_def

lemmas stream_model =
  handle_line_def delta_fragment_def member_def element0_def truthy_def own_property_def
  JSON_parse_def idle_def json_ws_def is_digit_def word_char_def number_char_def
  start_stream_def record_line_def

theorem title_truncation_witness:
  "length long_question = 45
   \<and> (\<exists>k st'. handleSend_begin demo_env (Some (js ''sk-demo'')) 1000 1000 1001
                 ((init_app None None)\<lparr>chatInput_value := long_question\<rparr>) = Inr (Some (0, k), st')
        \<and> length (messages (heap st' 0)) = 1
        \<and> title (heap st' 0) = js ''Please explain closures in Jav...'')"
proof -
  let ?st = "(init_app None None)\<lparr>chatInput_value := long_question\<rparr>"
  let ?res = "handleSend_begin demo_env (Some (js ''sk-demo'')) 1000 1000 1001 ?st"
  have "case ?res of Inr (Some (r, k), st') \<Rightarrow> r = 0 \<and> length (messages (heap st' r)) = 1 | _ \<Rightarrow> False"
    by (simp add: model long_question_def)
  then obtain k st' where r: "?res = Inr (Some (0, k), st')" and l: "length (messages (heap st' 0)) = 1"
    by (auto split: sum.splits option.splits prod.splits)
  have t: "js_trim (chatInput_value ?st) = long_question"
    by (simp add: model long_question_def)
  have n: "length long_question = 45" by (simp add: long_question_def)
  have "title (heap st' 0) =
          (if 30 < length long_question then take 30 long_question @ js ''...'' else long_question)"
    using title_truncation[OF r l] unfolding t by blast
  also have "\<dots> = js ''Please explain closures in Jav...''"
    by (simp add: long_question_def)
  finally show ?thesis using r l n by blast
qed

text \<open>
  C7. For a session object that exists, one event of the page either leaves its title as
  it is, or the session had no message, now has exactly one, a user message, and its title
  is derived from that message's content. Once a session has a message, no sequence of
  events changes its title.
\<close>

theorem title_set_once:
  assumes "r < nextRef st"
  shows "(title (heap (apply_event ev e st) r) = title (heap st r)
          \<or> (messages (heap st r) = []
              \<and> (\<exists>c. messages (heap (apply_event ev e st) r) = [\<lparr>role = User, content = c\<rparr>]
                     \<and> title (heap (apply_event ev e st) r)
                         = take 30 c @ (if 30 < length c then js ''...'' else []))))
         \<and> (messages (heap st r) \<noteq> [] \<longrightarrow> title (heap (run_events ev es st) r) = title (heap st r))"
  using assms step_ok_event[of r st ev e] frozen_run[of r st ev es]
  by (auto simp: step_ok_def derived_title_def)

lemma asked_facts:
  "nextRef asked = 1" "messages (heap asked 0) = [\<lparr>role = User, content = js ''What is 2+2?''\<rparr>]"
  "title (heap asked 0) = js ''What is 2+2?''"
  by (simp_all add: asked_def model)

theorem title_set_once_witness:
  "0 < nextRef asked \<and> messages (heap asked 0) \<noteq> []
   \<and> title (heap (run_events demo_env
        [SendFinish 0 1 reply_four 1002, Input (js ''And 3+3?''), SendBegin None 0 0 2000,
         NewChat 3000 3000, OpenSession 0] asked) 0) = js ''What is 2+2?''"
proof -
  have h: "0 < nextRef asked" by (simp add: asked_facts)
  have m: "messages (heap asked 0) \<noteq> []" by (simp add: asked_facts)
  show ?thesis
    using title_set_once[OF h, of demo_env "Input []"
        "[SendFinish 0 1 reply_four 1002, Input (js ''And 3+3?''), SendBegin None 0 0 2000,
          NewChat 3000 3000, OpenSession 0]"] h m
    by (simp add: asked_facts)
qed

section \<open>Authentication failure\<close>

text \<open>
  C8. When the response has status 401 and neither the bundler nor the process
  environment supplies a key, the rest of \<open>handleSend\<close> leaves no key in storage and
  issues no further request, and the next \<open>ensureApiKey\<close> shows the prompt.
\<close>

theorem unauthorized_purges_key:
  assumes "status resp = 401" and "import_meta_key ev = None" and "process_env_key ev = None"
  shows "ls_openai_key (handleSend_finish ev r k (Response resp) t st) = None
       \<and> fetch_log (handleSend_finish ev r k (Response resp) t st) = fetch_log st
       \<and> prompts (snd (ensureApiKey ev answer (handleSend_finish ev r k (Response resp) t st)))
           = prompts (handleSend_finish ev r k (Response resp) t st) + 1"
  using assms
  by (simp add: handleSend_finish_def try_body_def ensureApiKey_def getApiKey_def Let_def
                showToast_def set_node_def)

definition unauthorized :: response where
  "unauthorized = \<lparr>status = 401, json_null = False, error_message = None,
                    body_null = False, chunks = [], read_failure = None\<rparr>"

theorem unauthorized_purges_key_witness:
  "status unauthorized = 401 \<and> ls_openai_key asked = Some (js ''sk-demo'')
   \<and> ls_openai_key (handleSend_finish demo_env 0 1 (Response unauthorized) 1002 asked) = None
   \<and> prompts (snd (ensureApiKey demo_env None
        (handleSend_finish demo_env 0 1 (Response unauthorized) 1002 asked))) = 2"
proof -
  have s: "status unauthorized = 401" by (simp add: unauthorized_def)
  have e: "import_meta_key demo_env = None" "process_env_key demo_env = None"
    by (simp_all add: demo_env_def)
  have k: "ls_openai_key asked = Some (js ''sk-demo'')" by (simp add: asked_def model)
  have p: "prompts (handleSend_finish demo_env 0 1 (Response unauthorized) 1002 asked) = 1"
    by (simp add: asked_def model unauthorized_def)
  show ?thesis
    using unauthorized_purges_key[OF s e, of 0 1 1002 asked None] s k p by simp
qed

section \<open>Persistence\<close>

text \<open>
  C3. After the first round trip the stored sessions equal the sessions in memory. The
  user then sends a second message: when \<open>handleSend\<close> has issued its request the
  session in memory has three messages and the stored one has two, so storage and memory
  differ; and when the request fails, storage stays as it was.
\<close>

theorem later_user_message_not_persisted:
  "ls_sessions answered = Some (map (heap answered) (sessions answered))
   \<and> (let st = apply_event demo_env (SendBegin None 0 0 2000)
                  (apply_event demo_env (Input (js ''And 3+3?'')) answered)
      in map content (messages (heap st 0)) = [js ''What is 2+2?'', js ''4'', js ''And 3+3?'']
       \<and> map (map content \<circ> messages) (the (ls_sessions st)) = [[js ''What is 2+2?'', js ''4'']]
       \<and> ls_sessions st \<noteq> Some (map (heap st) (sessions st))
       \<and> ls_sessions (apply_event demo_env (SendFinish 0 3 (Rejected (js ''Failed to fetch'')) 2001) st)
           = ls_sessions st)"
  by (simp add: answered_def asked_def reply_four_def model stream_model)

section \<open>A truncated JSON object does not parse\<close>

text \<open>
  Once the automaton has a complete top-level value, or is reading a top-level number or
  word, it stays so or fails, and a closing brace makes it fail. So a text that parses
  and ends with \<open>}\<close> has no proper prefix that parses.
\<close>

lemma run_append:
  "run cfg (p @ s) = (case run cfg p of None \<Rightarrow> None | Some c \<Rightarrow> run c s)"
  by (induction p arbitrary: cfg) (auto split: option.splits)

definition lexing :: "lexer \<Rightarrow> bool" where
  "lexing l = (case l of InNumber acc \<Rightarrow> True | InWord acc \<Rightarrow> True | other \<Rightarrow> False)"

definition top :: "lexer \<times> expect \<times> frame list \<Rightarrow> bool" where
  "top cfg =
     (case cfg of
        (l, e, st) \<Rightarrow>
          (case e of
             Finished v \<Rightarrow> True
           | Value \<Rightarrow> st = [] \<and> lexing l
           | ValueOrClose \<Rightarrow> st = [] \<and> lexing l
           | other \<Rightarrow> False))"

lemma feed_Finished [simp]: "feed t (Finished v, st) = None"
  by (cases t) auto

lemma result_Some: "result p = Some v \<Longrightarrow> \<exists>st. p = (Finished v, st)"
  by (cases p rule: result.cases) auto

lemma complete_Finished: "complete v st = (Finished w, st') \<Longrightarrow> st = [] \<and> st' = []"
  by (cases "(v, st)" rule: complete.cases) auto

lemma feed_Scalar_Finished:
  "feed (Scalar v) (e, st) = Some (Finished w, st') \<Longrightarrow> (e = Value \<or> e = ValueOrClose) \<and> st = []"
  by (cases "(Scalar v, (e, st))" rule: feed.cases) (auto dest: complete_Finished)

lemma end_number_Finished:
  "end_number acc (e, st) = Some (Finished w, st') \<Longrightarrow> (e = Value \<or> e = ValueOrClose) \<and> st = []"
  by (auto simp: end_number_def split: if_splits dest: feed_Scalar_Finished)

lemma end_word_Finished:
  "end_word acc (e, st) = Some (Finished w, st') \<Longrightarrow> (e = Value \<or> e = ValueOrClose) \<and> st = []"
  by (auto simp: end_word_def split: if_splits dest: feed_Scalar_Finished)

lemma finish_top: "finish cfg = Some v \<Longrightarrow> top cfg"
proof -
  assume a: "finish cfg = Some v"
  obtain l e st where c: "cfg = (l, e, st)" by (cases cfg)
  show ?thesis
  proof (cases l)
    case Idle
    then show ?thesis using a c by (auto simp: top_def dest!: result_Some)
  next
    case (InNumber acc)
    then show ?thesis using a c
      by (auto simp: top_def lexing_def split: option.splits dest!: result_Some end_number_Finished)
  next
    case (InWord acc)
    then show ?thesis using a c
      by (auto simp: top_def lexing_def split: option.splits dest!: result_Some end_word_Finished)
  qed (use a c in auto)
qed

lemma end_number_top:
  "top (InNumber acc, e, st) \<Longrightarrow> end_number acc (e, st) = Some p \<Longrightarrow> \<exists>v. p = (Finished v, [])"
  by (cases e) (auto simp: top_def end_number_def split: if_splits)

lemma end_word_top:
  "top (InWord acc, e, st) \<Longrightarrow> end_word acc (e, st) = Some p \<Longrightarrow> \<exists>v. p = (Finished v, [])"
  by (cases e) (auto simp: top_def end_word_def split: if_splits)

lemma idle_Finished: "idle c (Finished v, st) = Some cfg \<Longrightarrow> top cfg \<and> c \<noteq> 125"
  by (auto simp: idle_def top_def json_ws_def split: if_splits)

lemma step_top: "top cfg \<Longrightarrow> step cfg c = Some cfg' \<Longrightarrow> top cfg'"
proof -
  assume t: "top cfg" and s: "step cfg c = Some cfg'"
  obtain l e st where c: "cfg = (l, e, st)" by (cases cfg)
  show ?thesis
  proof (cases l)
    case Idle
    then show ?thesis using t s c
      by (cases e) (auto simp: top_def lexing_def dest: idle_Finished)
  next
    case (InString acc)
    then show ?thesis using t s c
      by (cases e) (auto simp: top_def lexing_def split: if_splits)
  next
    case (Escape acc)
    then show ?thesis using t s c
      by (cases e) (auto simp: top_def lexing_def split: if_splits option.splits)
  next
    case (Unicode acc ds)
    then show ?thesis using t s c
      by (cases e) (auto simp: top_def lexing_def split: if_splits option.splits)
  next
    case (InNumber acc)
    show ?thesis
    proof (cases "number_char c")
      case True
      then show ?thesis using t s c InNumber by (cases e) (auto simp: top_def lexing_def)
    next
      case False
      then obtain p where p: "end_number acc (e, st) = Some p" "idle c p = Some cfg'"
        using s c InNumber by (auto split: option.splits)
      then show ?thesis using t c InNumber by (auto dest!: end_number_top dest: idle_Finished)
    qed
  next
    case (InWord acc)
    show ?thesis
    proof (cases "word_char c")
      case True
      then show ?thesis using t s c InWord by (cases e) (auto simp: top_def lexing_def)
    next
      case False
      then obtain p where p: "end_word acc (e, st) = Some p" "idle c p = Some cfg'"
        using s c InWord by (auto split: option.splits)
      then show ?thesis using t c InWord by (auto dest!: end_word_top dest: idle_Finished)
    qed
  qed
qed

lemma step_top_brace: "top cfg \<Longrightarrow> step cfg 125 = Some cfg' \<Longrightarrow> finish cfg' = None"
proof -
  assume t: "top cfg" and s: "step cfg 125 = Some cfg'"
  obtain l e st where c: "cfg = (l, e, st)" by (cases cfg)
  show ?thesis
  proof (cases l)
    case Idle
    then show ?thesis using t s c
      by (cases e) (auto simp: top_def lexing_def dest: idle_Finished)
  next
    case (InString acc)
    then show ?thesis using t s c by (auto split: if_splits)
  next
    case (Escape acc)
    then show ?thesis using t s c by (auto simp: escaped_def split: if_splits option.splits)
  next
    case (Unicode acc ds)
    then show ?thesis using t s c by (auto simp: hex_value_def split: if_splits option.splits)
  next
    case (InNumber acc)
    have "\<not> number_char 125" by (simp add: number_char_def is_digit_def)
    then obtain p where p: "end_number acc (e, st) = Some p" "idle 125 p = Some cfg'"
      using s c InNumber by (auto split: option.splits)
    then show ?thesis using t c InNumber by (auto dest!: end_number_top dest: idle_Finished)
  next
    case (InWord acc)
    have "\<not> word_char 125" by (simp add: word_char_def)
    then obtain p where p: "end_word acc (e, st) = Some p" "idle 125 p = Some cfg'"
      using s c InWord by (auto split: option.splits)
    then show ?thesis using t c InWord by (auto dest!: end_word_top dest: idle_Finished)
  qed
qed

lemma top_rejects:
  "top cfg \<Longrightarrow> s \<noteq> [] \<Longrightarrow> last s = 125 \<Longrightarrow>
     (case run cfg s of None \<Rightarrow> None | Some c \<Rightarrow> finish c) = None"
proof (induction s arbitrary: cfg)
  case Nil
  then show ?case by simp
next
  case (Cons a s)
  show ?case
  proof (cases "step cfg a")
    case None
    then show ?thesis by simp
  next
    case (Some cfg')
    show ?thesis
    proof (cases "s = []")
      case True
      then show ?thesis using Cons.prems Some by (auto dest: step_top_brace)
    next
      case False
      then show ?thesis using Cons.prems Some Cons.IH[of cfg'] by (auto dest: step_top)
    qed
  qed
qed

lemma truncated_object_rejected:
  assumes "JSON_parse j \<noteq> None" and "last j = 125" and "n < length j"
  shows "JSON_parse (take n j) = None"
proof (rule ccontr)
  assume "JSON_parse (take n j) \<noteq> None"
  then obtain c v where c: "run (Idle, Value, []) (take n j) = Some c" "finish c = Some v"
    by (auto simp: JSON_parse_def split: option.splits)
  then have t: "top c" by (auto dest: finish_top)
  have d: "drop n j \<noteq> []" "last (drop n j) = 125"
    using assms(2,3) by auto
  have "JSON_parse j = (case run (Idle, Value, []) (take n j @ drop n j) of None \<Rightarrow> None | Some c \<Rightarrow> finish c)"
    by (simp add: JSON_parse_def)
  also have "\<dots> = (case run c (drop n j) of None \<Rightarrow> None | Some c \<Rightarrow> finish c)"
    using c by (simp only: run_append) simp
  also have "\<dots> = None" using t d by (rule top_rejects)
  finally show False using assms(1) by simp
qed

section \<open>The stream consumer and its records\<close>

text \<open>
  The specification's words for the consumer: a record is a line that starts with
  \<open>data: \<close> and is not the terminator; it is well formed when its payload parses; its
  fragment is the text of \<open>choices[0].delta.content\<close> if the payload has one. A record
  \<open>throws\<close> when handling it raises an exception, which the inner \<open>catch\<close> logs.
\<close>

definition is_record :: "jsstring \<Rightarrow> bool" where
  "is_record line \<longleftrightarrow> take 6 line = js ''data: '' \<and> line \<noteq> js ''data: [DONE]''"

definition well_formed :: "jsstring \<Rightarrow> bool" where
  "well_formed line \<longleftrightarrow> is_record line \<and> JSON_parse (drop 6 line) \<noteq> None"

definition fragment :: "jsstring \<Rightarrow> jsstring" where
  "fragment line =
     (case JSON_parse (drop 6 line) of
        None \<Rightarrow> []
      | Some data \<Rightarrow> (case delta_fragment data of Inr (Some frag) \<Rightarrow> frag | other \<Rightarrow> []))"

definition throws :: "jsstring \<Rightarrow> bool" where
  "throws line \<longleftrightarrow>
     is_record line \<and>
     (case JSON_parse (drop 6 line) of None \<Rightarrow> True | Some data \<Rightarrow> isl (delta_fragment data))"

lemma handle_line_botResponse:
  "botResponse (handle_line line st) = botResponse st @ (if well_formed line then fragment line else [])"
  by (auto simp: handle_line_def well_formed_def is_record_def fragment_def
           split: option.splits sum.splits)

lemma handle_line_logged:
  "logged (handle_line line st) = logged st + (if throws line then 1 else 0)"
  by (auto simp: handle_line_def throws_def is_record_def split: option.splits sum.splits)

lemma handle_lines_botResponse:
  "botResponse (handle_lines ls st) = botResponse st @ concat (map fragment (filter well_formed ls))"
  by (induction ls arbitrary: st) (simp_all add: handle_line_botResponse)

lemma handle_lines_logged:
  "logged (handle_lines ls st) = logged st + length (filter throws ls)"
  by (induction ls arbitrary: st) (simp_all add: handle_line_logged)

lemma handle_lines_append:
  "handle_lines (xs @ ys) st = handle_lines ys (handle_lines xs st)"
  by (induction xs arbitrary: st) simp_all

lemma read_loop_lines:
  "read_loop cs st = handle_lines (concat (map split_lines cs)) st"
  by (induction cs arbitrary: st) (simp_all add: handle_lines_append)

lemma read_loop_append:
  "read_loop (xs @ ys) st = read_loop ys (read_loop xs st)"
  by (simp add: read_loop_lines handle_lines_append)

section \<open>Records that parse and records that do not\<close>

text \<open>
  The records of the stream, as the server sends them: a record whose payload is the
  object with \<open>choices[0].delta.content\<close>, the content written without escapes, and a
  record whose payload is not JSON (the terminator \<open>[DONE]\<close>, which the loop does not
  hand to the parser, is not a record). Each is a line \<open>data: payload\<close>, followed by an
  empty line; a chunk holds any number of them.
\<close>

definition plain :: "nat \<Rightarrow> bool" where
  "plain c \<longleftrightarrow> 32 \<le> c \<and> c \<noteq> 34 \<and> c \<noteq> 92"

datatype stream_record = Delta jsstring | Malformed jsstring

fun record_text :: "stream_record \<Rightarrow> jsstring" where
  "record_text (Delta s) = record_line s"
| "record_text (Malformed p) = js ''data: '' @ p"

fun acceptable :: "stream_record \<Rightarrow> bool" where
  "acceptable (Delta s) = list_all plain s"
| "acceptable (Malformed p) = (JSON_parse p = None \<and> p \<noteq> js ''[DONE]'' \<and> 10 \<notin> set p)"

fun delta_of :: "stream_record \<Rightarrow> jsstring" where
  "delta_of (Delta s) = s"
| "delta_of (Malformed p) = []"

fun is_malformed :: "stream_record \<Rightarrow> bool" where
  "is_malformed (Delta s) = False"
| "is_malformed (Malformed p) = True"

definition chunk_of :: "stream_record list \<Rightarrow> jsstring" where
  "chunk_of rs = concat (map (\<lambda>r. record_text r @ [10, 10]) rs)"

lemma run_plain:
  "list_all plain s \<Longrightarrow> run (InString acc, p) s = Some (InString (rev s @ acc), p)"
  by (induction s arbitrary: acc) (simp_all add: plain_def)

definition delta_payload :: "jsstring \<Rightarrow> jsstring" where
  "delta_payload s = js ''{\"choices\":[{\"delta\":{\"content\":\"'' @ s @ js ''\"}}]}''"

definition delta_object :: "jsstring \<Rightarrow> json" where
  "delta_object s =
     JObj [(js ''choices'', JArr [JObj [(js ''delta'', JObj [(js ''content'', JStr s)])]])]"

lemma record_line_payload: "record_line s = js ''data: '' @ delta_payload s"
  by (simp add: record_line_def delta_payload_def)

lemma parse_delta:
  assumes "list_all plain s"
  shows "JSON_parse (delta_payload s) = Some (delta_object s)"
proof -
  have 1: "run (Idle, Value, []) (js ''{\"choices\":[{\"delta\":{\"content\":\"'')
        = Some (InString [], Value,
                [InObject [] (js ''content''), InObject [] (js ''delta''), InArray [],
                 InObject [] (js ''choices'')])"
    by (simp add: idle_def json_ws_def is_digit_def word_char_def)
  have 2: "run (InString (rev s), Value,
                [InObject [] (js ''content''), InObject [] (js ''delta''), InArray [],
                 InObject [] (js ''choices'')]) (js ''\"}}]}'')
        = Some (Idle, Finished (JObj [(js ''choices'',
                  JArr [JObj [(js ''delta'', JObj [(js ''content'', JStr s)])]])]), [])"
    by (simp add: idle_def json_ws_def is_digit_def word_char_def)
  show ?thesis
    unfolding JSON_parse_def delta_payload_def delta_object_def run_append 1
    using run_plain[OF assms, of "[]"] 2 by simp
qed

lemma handle_line_data:
  "p \<noteq> js ''[DONE]'' \<Longrightarrow>
     handle_line (js ''data: '' @ p) st =
       (case JSON_parse p of
          None \<Rightarrow> st\<lparr>logged := logged st + 1\<rparr>
        | Some data \<Rightarrow>
            (case delta_fragment data of
               Inl e \<Rightarrow> st\<lparr>logged := logged st + 1\<rparr>
             | Inr None \<Rightarrow> st
             | Inr (Some frag) \<Rightarrow>
                 st\<lparr>botResponse := botResponse st @ frag,
                    rendered := rendered st @ [botResponse st @ frag]\<rparr>))"
  by (simp add: handle_line_def)

lemma fragment_of_delta:
  "delta_fragment (delta_object s) = Inr (if s = [] then None else Some s)"
  by (simp add: delta_object_def delta_fragment_def member_def element0_def truthy_def
        own_property_def)

text \<open>What the loop body does with one record.\<close>

fun effect :: "stream_record \<Rightarrow> stream \<Rightarrow> stream" where
  "effect (Delta s) st =
     (if s = [] then st
      else st\<lparr>botResponse := botResponse st @ s, rendered := rendered st @ [botResponse st @ s]\<rparr>)"
| "effect (Malformed p) st = st\<lparr>logged := logged st + 1\<rparr>"

lemma handle_line_record:
  assumes "acceptable r"
  shows "handle_line (record_text r) st = effect r st"
proof (cases r)
  case (Delta s)
  then have p: "list_all plain s" using assms by simp
  have "delta_payload s \<noteq> js ''[DONE]''" by (simp add: delta_payload_def)
  note handle_line_data[OF this, of st]
  also have "(case JSON_parse (delta_payload s) of
          None \<Rightarrow> st\<lparr>logged := logged st + 1\<rparr>
        | Some data \<Rightarrow>
            (case delta_fragment data of
               Inl e \<Rightarrow> st\<lparr>logged := logged st + 1\<rparr>
             | Inr None \<Rightarrow> st
             | Inr (Some frag) \<Rightarrow>
                 st\<lparr>botResponse := botResponse st @ frag,
                    rendered := rendered st @ [botResponse st @ frag]\<rparr>)) = effect (Delta s) st"
    by (simp add: parse_delta[OF p] fragment_of_delta)
  finally have "handle_line (js ''data: '' @ delta_payload s) st = effect (Delta s) st" .
  then show ?thesis
    unfolding Delta record_text.simps record_line_payload .
next
  case (Malformed p)
  then have "JSON_parse p = None" "p \<noteq> js ''[DONE]''" using assms by simp_all
  then have "handle_line (js ''data: '' @ p) st = effect (Malformed p) st"
    using handle_line_data[of p st] by simp
  then show ?thesis unfolding Malformed record_text.simps .
qed

lemma handle_line_empty: "handle_line [] st = st"
  by (simp add: handle_line_def)

lemma split_lines_first:
  "10 \<notin> set l \<Longrightarrow> split_lines (l @ 10 # rest) = l # split_lines rest"
  by (induction l) (auto split: list.splits)

lemma record_text_one_line: "acceptable r \<Longrightarrow> 10 \<notin> set (record_text r)"
  by (cases r) (auto simp: record_line_def list_all_iff plain_def)

lemma handle_chunk:
  "\<forall>r\<in>set rs. acceptable r \<Longrightarrow> handle_lines (split_lines (chunk_of rs)) st = fold effect rs st"
proof (induction rs arbitrary: st)
  case Nil
  then show ?case by (simp add: chunk_of_def handle_line_empty)
next
  case (Cons r rs)
  have a: "acceptable r" using Cons.prems by simp
  have "chunk_of (r # rs) = record_text r @ 10 # ([] @ 10 # chunk_of rs)"
    by (simp add: chunk_of_def)
  then have "split_lines (chunk_of (r # rs)) = record_text r # [] # split_lines (chunk_of rs)"
    using split_lines_first[OF record_text_one_line[OF a]] split_lines_first[of "[]"] by simp
  then show ?case using Cons handle_line_record[OF a] by (simp add: handle_line_empty)
qed

lemma read_chunks:
  "\<forall>r\<in>set (concat groups). acceptable r \<Longrightarrow>
     read_loop (map chunk_of groups) st = fold effect (concat groups) st"
  by (induction groups arbitrary: st) (simp_all add: handle_chunk)

lemma effect_botResponse:
  "botResponse (fold effect rs st) = botResponse st @ concat (map delta_of rs)"
proof (induction rs arbitrary: st)
  case Nil
  then show ?case by simp
next
  case (Cons r rs)
  then show ?case by (cases r) simp_all
qed

lemma effect_logged:
  "logged (fold effect rs st) = logged st + length (filter is_malformed rs)"
proof (induction rs arbitrary: st)
  case Nil
  then show ?case by simp
next
  case (Cons r rs)
  then show ?case by (cases r) simp_all
qed

text \<open>
  C4. For every sequence of chunks, the accumulated text is the concatenation, in arrival
  order, of the fragments of exactly the records whose payload parses, and every record
  whose handling throws is logged once. When the records are delta records and records
  that are not JSON, in any order and in any grouping into chunks, the accumulated text
  is the concatenation of the contents of the delta records, and the number of logged
  errors is the number of the records that are not JSON: such a record is logged and
  skipped, and the records after it are handled.
\<close>

theorem malformed_records_skipped:
  assumes "\<forall>r\<in>set (concat groups). acceptable r"
  shows "botResponse (read_loop cs start_stream)
           = concat (map fragment (filter well_formed (concat (map split_lines cs))))
       \<and> logged (read_loop cs start_stream) = length (filter throws (concat (map split_lines cs)))
       \<and> botResponse (read_loop (map chunk_of groups) st)
           = botResponse st @ concat (map delta_of (concat groups))
       \<and> logged (read_loop (map chunk_of groups) st)
           = logged st + length (filter is_malformed (concat groups))"
proof -
  have "botResponse (read_loop cs start_stream)
           = concat (map fragment (filter well_formed (concat (map split_lines cs))))"
    by (simp add: read_loop_lines handle_lines_botResponse start_stream_def)
  moreover have "logged (read_loop cs start_stream)
           = length (filter throws (concat (map split_lines cs)))"
    by (simp add: read_loop_lines handle_lines_logged start_stream_def)
  moreover have "botResponse (read_loop (map chunk_of groups) st)
           = botResponse st @ concat (map delta_of (concat groups))"
    unfolding read_chunks[OF assms] by (rule effect_botResponse)
  moreover have "logged (read_loop (map chunk_of groups) st)
           = logged st + length (filter is_malformed (concat groups))"
    unfolding read_chunks[OF assms] by (rule effect_logged)
  ultimately show ?thesis by blast
qed

text \<open>
  The record \<open>data: {not json\<close> between two delta records, in one chunk and in a chunk
  of its own: the response is \<open>Hello\<close> and one error is logged.
\<close>

theorem malformed_records_skipped_witness:
  "acceptable (Delta (js ''Hel'')) \<and> acceptable (Malformed (js ''{not json''))
   \<and> acceptable (Delta (js ''lo''))
   \<and> map chunk_of [[Delta (js ''Hel''), Malformed (js ''{not json'')], [Delta (js ''lo'')]]
       = [js ''data: {\"choices\":[{\"delta\":{\"content\":\"Hel\"}}]}'' @ [10, 10]
            @ js ''data: {not json'' @ [10, 10],
          js ''data: {\"choices\":[{\"delta\":{\"content\":\"lo\"}}]}'' @ [10, 10]]
   \<and> botResponse (read_loop
         [js ''data: {\"choices\":[{\"delta\":{\"content\":\"Hel\"}}]}'' @ [10, 10]
            @ js ''data: {not json'' @ [10, 10],
          js ''data: {\"choices\":[{\"delta\":{\"content\":\"lo\"}}]}'' @ [10, 10]]
         start_stream) = js ''Hello''
   \<and> logged (read_loop
         [js ''data: {\"choices\":[{\"delta\":{\"content\":\"Hel\"}}]}'' @ [10, 10]
            @ js ''data: {not json'' @ [10, 10],
          js ''data: {\"choices\":[{\"delta\":{\"content\":\"lo\"}}]}'' @ [10, 10]]
         start_stream) = 1"
proof -
  let ?groups = "[[Delta (js ''Hel''), Malformed (js ''{not json'')], [Delta (js ''lo'')]]"
  have n: "JSON_parse (js ''{not json'') = None"
    by (simp add: JSON_parse_def idle_def json_ws_def is_digit_def word_char_def end_word_def)
  have a: "\<forall>r\<in>set (concat ?groups). acceptable r" using n by (simp add: plain_def)
  have c: "map chunk_of ?groups
       = [js ''data: {\"choices\":[{\"delta\":{\"content\":\"Hel\"}}]}'' @ [10, 10]
            @ js ''data: {not json'' @ [10, 10],
          js ''data: {\"choices\":[{\"delta\":{\"content\":\"lo\"}}]}'' @ [10, 10]]"
    by (simp add: chunk_of_def record_line_def)
  show ?thesis
    using malformed_records_skipped[OF a, of "[]" start_stream] a
    unfolding c by (simp add: start_stream_def del: acceptable.simps)
qed

text \<open>
  C1, as stated, fails: the loop does not stop at the terminator. A fragment that follows
  \<open>data: [DONE]\<close> is accumulated and rendered.
\<close>

theorem fragment_after_done_accumulated:
  "botResponse (read_loop [record_line (js ''Hel'') @ [10] @ record_line (js ''lo'') @ [10]
                            @ js ''data: [DONE]'' @ [10] @ record_line (js ''!'') @ [10]]
                  start_stream) = js ''Hello!''
   \<and> rendered (read_loop [record_line (js ''Hel'') @ [10] @ record_line (js ''lo'') @ [10]
                            @ js ''data: [DONE]'' @ [10] @ record_line (js ''!'') @ [10]]
                  start_stream) = [js ''Hel'', js ''Hello'', js ''Hello!'']"
  by (simp add: stream_model)


text \<open>
  C1, amended. The loop ends when the stream reports its end and not before: every chunk
  read is handled, so reading \<open>cs1 @ cs2\<close> is reading \<open>cs1\<close> and then \<open>cs2\<close>. A
  terminator line has no effect of its own, and the lines after it are handled as they
  would be without it.
\<close>

theorem done_record_skipped:
  "read_loop (cs1 @ cs2) st = read_loop cs2 (read_loop cs1 st)
   \<and> handle_lines (ls1 @ js ''data: [DONE]'' # ls2) st = handle_lines (ls1 @ ls2) st"
  by (simp add: read_loop_append handle_lines_append handle_line_def)

section \<open>A record split across two chunks\<close>

lemma split_lines_single: "10 \<notin> set s \<Longrightarrow> split_lines s = [s]"
  by (induction s) (auto split: list.splits)

definition hel_payload :: jsstring where
  "hel_payload = js ''{\"choices\":[{\"delta\":{\"content\":\"Hel\"}}]}''"

lemma run_whitespace: "list_all json_ws ws \<Longrightarrow> run (Idle, p) ws = Some (Idle, p)"
  by (induction ws) (simp_all add: idle_def)

lemma closing_brace_idle:
  assumes "step c1 125 = Some c" and "finish c \<noteq> None"
  shows "\<exists>p. c = (Idle, p)"
proof -
  obtain l p where c1: "c1 = (l, p)" by (cases c1)
  show ?thesis
  proof (cases l)
    case Idle
    then show ?thesis using assms(1) c1
      by (auto simp: idle_def json_ws_def split: if_splits)
  next
    case (InString acc)
    then show ?thesis using assms c1 by auto
  next
    case (Escape acc)
    then show ?thesis using assms(1) c1 by (auto simp: escaped_def split: option.splits)
  next
    case (Unicode acc ds)
    then show ?thesis using assms(1) c1 by (auto simp: hex_value_def split: option.splits if_splits)
  next
    case (InNumber acc)
    then show ?thesis using assms(1) c1
      by (auto simp: number_char_def is_digit_def idle_def json_ws_def
               split: option.splits if_splits)
  next
    case (InWord acc)
    then show ?thesis using assms(1) c1
      by (auto simp: word_char_def idle_def json_ws_def split: option.splits if_splits)
  qed
qed

text \<open>White space after the closing brace of a JSON text does not change what it parses to.\<close>

lemma parse_trailing_whitespace:
  assumes p: "JSON_parse core \<noteq> None" and l: "last core = 125" and w: "list_all json_ws ws"
  shows "JSON_parse (core @ ws) = JSON_parse core"
proof -
  have ne: "core \<noteq> []" using p by (auto simp: JSON_parse_def)
  then have core: "core = butlast core @ [125]" using l by (metis append_butlast_last_id)
  from p obtain c where c: "run (Idle, Value, []) core = Some c" "finish c \<noteq> None"
    by (auto simp: JSON_parse_def split: option.splits)
  from c(1) obtain c1 where "run (Idle, Value, []) (butlast core) = Some c1" "step c1 125 = Some c"
    by (subst (asm) core) (auto simp: run_append split: option.splits)
  from closing_brace_idle[OF this(2) c(2)] obtain q where q: "c = (Idle, q)" by blast
  have "run (Idle, Value, []) (core @ ws) = Some c"
    using c(1) run_whitespace[OF w, of q] by (simp add: run_append q)
  then show ?thesis using c(1) by (simp add: JSON_parse_def)
qed

lemma not_the_terminator: "JSON_parse p \<noteq> None \<Longrightarrow> p \<noteq> js ''[DONE]''"
  by (auto simp: JSON_parse_def idle_def json_ws_def is_digit_def word_char_def)

lemma terminator_prefix_rejected: "JSON_parse (js ''[DONE]'' @ rest) = None"
  by (simp add: JSON_parse_def idle_def json_ws_def is_digit_def word_char_def)

text \<open>
  C10, as stated, fails in two ways. The first piece of a record cut inside its JSON
  text is logged by \<open>console.error\<close>, not dropped silently; and a record cut between its
  closing brace and the carriage return that ends its line parses, so that its fragment
  is kept.
\<close>

theorem split_record_logged_or_kept:
  "logged (read_loop [js ''data: {\"choices\":['', js ''{\"delta\":{\"content\":\"Hel\"}}]}'']
             start_stream) = 1
   \<and> botResponse (read_loop [js ''data: {\"choices\":[{\"delta\":{\"content\":\"Hel\"}}]}'',
                             [13, 10, 13, 10]] start_stream) = js ''Hel''"
  by (simp add: stream_model)

text \<open>
  C10, amended. Lines never span chunks: each piece of a line cut in two is a line of its
  own. Let the payload of a record be a JSON text that ends with its closing brace,
  followed by white space, without a line break. Cut before the payload begins, the two
  pieces change nothing. Cut inside the JSON text, the first piece does not parse: it is
  logged, adds nothing to the response and renders nothing, and the second piece is
  handled as a line of its own (it is a record only if it starts with \<open>data: \<close>). Cut in
  the white space after the JSON text, the record is handled as if it had not been cut.
\<close>

theorem split_record_not_reassembled:
  assumes "JSON_parse core \<noteq> None" and "last core = 125"
    and "list_all json_ws ws" and "10 \<notin> set (core @ ws)"
    and "0 < k" and "k < length (js ''data: '' @ core @ ws)"
  shows "read_loop [take k (js ''data: '' @ core @ ws), drop k (js ''data: '' @ core @ ws)] st
         = (if k < 6 then st
            else if k < 6 + length core
            then handle_line (drop k (js ''data: '' @ core @ ws)) (st\<lparr>logged := logged st + 1\<rparr>)
            else read_loop [js ''data: '' @ core @ ws] st)"
proof -
  define d where "d = js ''data: ''"
  define line where "line = d @ core @ ws"
  define a where "a = take k line"
  define b where "b = drop k line"
  have ld: "length d = 6" by (simp add: d_def)
  have nl: "10 \<notin> set line" using assms(4) by (auto simp: line_def d_def)
  have s1: "split_lines a = [a]"
    unfolding a_def using nl by (intro split_lines_single) (auto dest: in_set_takeD)
  have s2: "split_lines b = [b]"
    unfolding b_def using nl by (intro split_lines_single) (auto dest: in_set_dropD)
  have s3: "split_lines line = [line]"
    using nl by (rule split_lines_single)
  have two: "read_loop [a, b] st = handle_line b (handle_line a st)" by (simp add: s1 s2)
  have one: "read_loop [line] st = handle_line line st" by (simp add: s3)
  have pw: "JSON_parse (core @ ws') = JSON_parse core" if "list_all json_ws ws'" for ws'
    using assms(1,2) that by (rule parse_trailing_whitespace)
  note data = handle_line_data[folded d_def]
  have k6: "k < length (d @ core @ ws)" using assms(6) by (simp add: d_def)
  consider "k < 6" | "6 \<le> k" "k < 6 + length core" | "6 + length core \<le> k" by linarith
  then have "read_loop [a, b] st
         = (if k < 6 then st
            else if k < 6 + length core then handle_line b (st\<lparr>logged := logged st + 1\<rparr>)
            else read_loop [line] st)"
  proof cases
    case 1
    have "take 6 a \<noteq> js ''data: ''"
    proof
      assume "take 6 a = js ''data: ''"
      then have "length (take 6 a) = length (js ''data: '')" by (rule arg_cong)
      then show False using 1 by (simp add: a_def)
    qed
    then have ha: "handle_line a st = st" by (simp add: handle_line_def)
    from 1 assms(5) consider "k = 1" | "k = 2" | "k = 3" | "k = 4" | "k = 5" by linarith
    then have "hd b \<noteq> 100" by cases (simp_all add: b_def line_def d_def)
    moreover have "b \<noteq> []"
    proof -
      have "length b \<noteq> 0" using k6 unfolding b_def line_def by simp
      then show ?thesis by auto
    qed
    ultimately have "take 6 b \<noteq> js ''data: ''" by (cases b) auto
    then have "handle_line b st = st" by (simp add: handle_line_def)
    then show ?thesis using 1 ha two by simp
  next
    case 2
    define n where "n = k - 6"
    have n: "n < length core" "k = 6 + n" using 2 by (simp_all add: n_def)
    have a: "a = d @ take n core"
      by (simp add: a_def line_def n(2) ld less_imp_le[OF n(1)])
    have rej: "JSON_parse (take n core) = None"
      using assms(1,2) n(1) by (rule truncated_object_rejected)
    have "take n core \<noteq> js ''[DONE]''"
    proof
      assume e: "take n core = js ''[DONE]''"
      have "core = take n core @ drop n core" by simp
      then have "core = js ''[DONE]'' @ drop n core" unfolding e .
      then have "JSON_parse core = None" using terminator_prefix_rejected by metis
      then show False using assms(1) by simp
    qed
    then have "handle_line a st = st\<lparr>logged := logged st + 1\<rparr>"
      unfolding a using data[of "take n core" st] rej by simp
    then show ?thesis using 2 two by simp
  next
    case 3
    define j where "j = k - 6 - length core"
    have j: "k = 6 + length core + j" using 3 by (simp add: j_def)
    have a: "a = d @ (core @ take j ws)" by (simp add: a_def line_def j ld)
    have b: "b = drop j ws" by (simp add: b_def line_def j ld)
    have wj: "list_all json_ws (take j ws)" "list_all json_ws (drop j ws)"
      using assms(3) by (auto simp: list_all_iff dest: in_set_takeD in_set_dropD)
    have pa: "JSON_parse (core @ take j ws) = JSON_parse core" using wj(1) by (rule pw)
    have pl: "JSON_parse (core @ ws) = JSON_parse core" using assms(3) by (rule pw)
    have "handle_line a st = handle_line (d @ (core @ ws)) st"
      unfolding a
      using data[of "core @ take j ws" st] data[of "core @ ws" st]
        not_the_terminator[of "core @ take j ws"] not_the_terminator[of "core @ ws"]
        pa pl assms(1)
      by simp
    then have ha: "handle_line a st = handle_line line st" by (simp add: line_def)
    have "take 6 b \<noteq> js ''data: ''"
    proof (cases b)
      case Nil
      then show ?thesis by simp
    next
      case (Cons c cs)
      then have "json_ws c" using wj(2) b by simp
      then show ?thesis using Cons by (auto simp: json_ws_def)
    qed
    then have "handle_line b st' = st'" for st' by (simp add: handle_line_def)
    then show ?thesis using 3 ha two one by simp
  qed
  then show ?thesis by (simp only: a_def b_def line_def d_def)
qed

text \<open>
  The record with the fragment \<open>Hel\<close> and a carriage return at its end, cut after
  \<open>dat\<close>, after \<open>data: {"choices":[\<close> and before the carriage return.
\<close>

theorem split_record_not_reassembled_witness:
  "JSON_parse hel_payload \<noteq> None \<and> last hel_payload = 125 \<and> list_all json_ws [13]
   \<and> 10 \<notin> set (hel_payload @ [13]) \<and> length (js ''data: '' @ hel_payload @ [13]) = 48
   \<and> read_loop [js ''dat'', js ''a: '' @ hel_payload @ [13]] start_stream = start_stream
   \<and> read_loop [js ''data: {\"choices\":['', js ''{\"delta\":{\"content\":\"Hel\"}}]}'' @ [13]]
        start_stream = start_stream\<lparr>logged := 1\<rparr>
   \<and> read_loop [js ''data: '' @ hel_payload, [13]] start_stream
        = read_loop [js ''data: '' @ hel_payload @ [13]] start_stream
   \<and> botResponse (read_loop [js ''data: '' @ hel_payload @ [13]] start_stream) = js ''Hel''"
proof -
  have p: "JSON_parse hel_payload \<noteq> None" by (simp add: hel_payload_def stream_model)
  have l: "last hel_payload = 125" by (simp add: hel_payload_def)
  have w: "list_all json_ws [13]" by (simp add: json_ws_def)
  have n: "10 \<notin> set (hel_payload @ [13])" by (simp add: hel_payload_def)
  have len: "length (js ''data: '' @ hel_payload @ [13]) = 48" by (simp add: hel_payload_def)
  have k: "(0::nat) < 3" "(3::nat) < length (js ''data: '' @ hel_payload @ [13])"
    "(0::nat) < 18" "(18::nat) < length (js ''data: '' @ hel_payload @ [13])"
    "(0::nat) < 47" "(47::nat) < length (js ''data: '' @ hel_payload @ [13])"
    by (simp_all add: hel_payload_def)
  have t3: "take 3 (js ''data: '' @ hel_payload @ [13]) = js ''dat''"
    "drop 3 (js ''data: '' @ hel_payload @ [13]) = js ''a: '' @ hel_payload @ [13]"
    by (simp_all add: hel_payload_def)
  have t18: "take 18 (js ''data: '' @ hel_payload @ [13]) = js ''data: {\"choices\":[''"
    "drop 18 (js ''data: '' @ hel_payload @ [13]) = js ''{\"delta\":{\"content\":\"Hel\"}}]}'' @ [13]"
    by (simp_all add: hel_payload_def)
  have t47: "take 47 (js ''data: '' @ hel_payload @ [13]) = js ''data: '' @ hel_payload"
    "drop 47 (js ''data: '' @ hel_payload @ [13]) = [13]"
    by (simp_all add: hel_payload_def)
  have h: "handle_line (js ''{\"delta\":{\"content\":\"Hel\"}}]}'' @ [13]) st = st" for st
    by (simp add: handle_line_def)
  have u: "botResponse (read_loop [js ''data: '' @ hel_payload @ [13]] start_stream) = js ''Hel''"
    by (simp add: hel_payload_def stream_model)
  have a: "read_loop [js ''dat'', js ''a: '' @ hel_payload @ [13]] start_stream = start_stream"
    using split_record_not_reassembled[OF p l w n k(1,2), of start_stream]
    unfolding t3 by simp
  have b: "read_loop [js ''data: {\"choices\":['', js ''{\"delta\":{\"content\":\"Hel\"}}]}'' @ [13]]
        start_stream = start_stream\<lparr>logged := 1\<rparr>"
    using split_record_not_reassembled[OF p l w n k(3,4), of start_stream]
    unfolding t18 h by (simp add: hel_payload_def start_stream_def)
  have c: "read_loop [js ''data: '' @ hel_payload, [13]] start_stream
        = read_loop [js ''data: '' @ hel_payload @ [13]] start_stream"
    using split_record_not_reassembled[OF p l w n k(5,6), of start_stream]
    unfolding t47 by (simp add: hel_payload_def)
  show ?thesis using p l w n len a b c u by blast
qed

section \<open>What the redact handler reports\<close>

lemmas regex_model =
  redact_def replace_all_def match_at_def last_before_def word_before_def word_next_def is_word_def
  emailRegex_def phoneRegex_def ipRegex_def secretRegex_def ignore_case_def one_def opt_def
  is_alpha_def is_alnum_def is_digit_def separator_def is_js_space_def Let_def



lemmas copy_model = click_copy_def compile_handler_def copyText_def decodeURIComponent_def
  hex_value_def code_units_def continuation_def

text \<open>
  C2. The handler compares lengths. An address of sixteen code units is replaced by its
  placeholder, which has sixteen too: the input box then holds the placeholder, and the
  handler reports that nothing was found.
\<close>

theorem equal_length_redaction_unreported:
  "redact (js ''abcdefgh@abc.com'') = js ''[REDACTED_EMAIL]''
   \<and> chatInput_value (redact_click ((init_app None None)\<lparr>chatInput_value := js ''abcdefgh@abc.com''\<rparr>))
       = js ''[REDACTED_EMAIL]''
   \<and> toasts (redact_click ((init_app None None)\<lparr>chatInput_value := js ''abcdefgh@abc.com''\<rparr>))
       = [(js ''No PII/Secrets found in input'', js ''success'')]"
  by (simp add: redact_click_def regex_model init_app_def renderHistory_def showToast_def)

section \<open>The copy button\<close>

text \<open>A run in which the question and the reply each contain an apostrophe.\<close>

definition its_four :: fetched where
  "its_four = Response \<lparr>status = 200, json_null = False, error_message = None,
                  body_null = False,
                chunks = [record_line (js ''It's 4'') @ [10, 10] @ js ''data: [DONE]'' @ [10, 10]],
                read_failure = None\<rparr>"

definition apostrophes :: app where
  "apostrophes = run_events demo_env
     [Input (js ''What's 2+2?''), SendBegin (Some (js ''sk-demo'')) 1000 1000 1001,
      SendFinish 0 1 its_four 1002] (init_app None None)"

text \<open>
  C9. \<open>encodeURIComponent\<close> leaves the apostrophe as it is, so the handler text of a
  message with an apostrophe has its string literal closed early. For the user message
  and for the reply finalized after streaming, the handler does not compile, and a click
  on either copy button copies nothing.
\<close>

theorem apostrophe_breaks_copy:
  "map (\<lambda>n. (node_content n, node_onclick n)) (chatMessages apostrophes)
     = [(js ''What's 2+2?'', js ''copyText('What's%202%2B2%3F')''),
        (js ''It's 4'', js ''copyText('It's%204')'')]
   \<and> compile_handler (js ''copyText('What's%202%2B2%3F')'') = Broken
   \<and> compile_handler (js ''copyText('It's%204')'') = Broken
   \<and> clipboard (apply_event demo_env (CopyClick 0) apostrophes) = None
   \<and> clipboard (apply_event demo_env (CopyClick 1) apostrophes) = None"
  by (simp add: apostrophes_def its_four_def model stream_model copy_model)

section \<open>What a pattern matches\<close>

text \<open>
  \<open>consumes r prev w rest\<close>: the pattern matches exactly the word \<open>w\<close> when \<open>prev\<close> is the
  code unit before it and \<open>rest\<close> is the input after it.
\<close>

fun consumes :: "regex \<Rightarrow> nat option \<Rightarrow> jsstring \<Rightarrow> jsstring \<Rightarrow> bool" where
  "consumes (Chars cls lo hi) prev w rest \<longleftrightarrow>
     list_all cls w \<and> lo \<le> length w \<and> (case hi of None \<Rightarrow> True | Some h \<Rightarrow> length w \<le> h)"
| "consumes Boundary prev w rest \<longleftrightarrow> w = [] \<and> word_before prev \<noteq> word_next rest"
| "consumes (Seq a b) prev w rest \<longleftrightarrow>
     (\<exists>u v. w = u @ v \<and> consumes a prev u (v @ rest) \<and> consumes b (last_before prev u) v rest)"
| "consumes (Alt a b) prev w rest \<longleftrightarrow> consumes a prev w rest \<or> consumes b prev w rest"
| "consumes (Group r) prev w rest \<longleftrightarrow> consumes r prev w rest"

lemma last_before_append [simp]:
  "last_before (last_before prev u) v = last_before prev (u @ v)"
  by (simp add: last_before_def)

lemma last_before_Nil [simp]: "last_before prev [] = prev"
  by (simp add: last_before_def)

lemma take_le_takeWhile: "n \<le> length (takeWhile P s) \<Longrightarrow> list_all P (take n s)"
proof (induction s arbitrary: n)
  case Nil
  then show ?case by simp
next
  case (Cons a s)
  then show ?case by (cases n) (auto split: if_splits)
qed

lemma list_all_takeWhile: "list_all P w \<Longrightarrow> length w \<le> length (takeWhile P (w @ s))"
  by (induction w) auto

lemma paths_sound:
  "(p', s', c') \<in> set (paths r (prev, s, cap)) \<Longrightarrow>
     \<exists>w. s = w @ s' \<and> consumes r prev w s' \<and> p' = last_before prev w"
proof (induction r arbitrary: prev s cap p' s' c')
  case (Chars cls lo hi)
  define top where "top = (case hi of None \<Rightarrow> length (takeWhile cls s)
                           | Some h \<Rightarrow> min h (length (takeWhile cls s)))"
  from Chars obtain n where n: "n \<in> set (rev [lo ..< Suc top])"
      "p' = last_before prev (take n s)" "s' = drop n s"
    by (auto simp: Let_def top_def)
  have b: "lo \<le> n" "n \<le> top" using n(1) by auto
  have t: "top \<le> length (takeWhile cls s)" "(case hi of None \<Rightarrow> True | Some h \<Rightarrow> top \<le> h)"
    by (auto simp: top_def split: option.splits)
  have "n \<le> length s" using b t length_takeWhile_le[of cls s] by linarith
  then have l: "length (take n s) = n" by simp
  have a: "list_all cls (take n s)" using b t by (intro take_le_takeWhile) linarith
  have h: "(case hi of None \<Rightarrow> True | Some h \<Rightarrow> n \<le> h)"
    using b t by (auto split: option.splits)
  show ?case
    using n b a h l by (intro exI[of _ "take n s"]) (auto split: option.splits)
next
  case Boundary
  then show ?case by (auto split: if_splits)
next
  case (Seq r1 r2)
  from Seq.prems obtain st1 where st1: "st1 \<in> set (paths r1 (prev, s, cap))"
      and st2: "(p', s', c') \<in> set (paths r2 st1)"
    by auto
  obtain p1 s1 c1 where e: "st1 = (p1, s1, c1)" by (cases st1)
  from Seq.IH(1)[OF st1[unfolded e]] obtain u where
    u: "s = u @ s1" "consumes r1 prev u s1" "p1 = last_before prev u" by blast
  from Seq.IH(2)[OF st2[unfolded e]] obtain v where
    v: "s1 = v @ s'" "consumes r2 p1 v s'" "p' = last_before p1 v" by blast
  show ?case
    using u v by (intro exI[of _ "u @ v"]) auto
next
  case (Alt r1 r2)
  from Alt.prems have "(p', s', c') \<in> set (paths r1 (prev, s, cap))
                     \<or> (p', s', c') \<in> set (paths r2 (prev, s, cap))"
    by simp
  then show ?case
  proof
    assume "(p', s', c') \<in> set (paths r1 (prev, s, cap))"
    from Alt.IH(1)[OF this] show ?thesis by auto
  next
    assume "(p', s', c') \<in> set (paths r2 (prev, s, cap))"
    from Alt.IH(2)[OF this] show ?thesis by auto
  qed
next
  case (Group r)
  from Group.prems obtain c0 where "(p', s', c0) \<in> set (paths r (prev, s, cap))"
    by auto
  from Group.IH[OF this] show ?case by auto
qed

lemma paths_complete:
  "consumes r prev w s' \<Longrightarrow> \<exists>c'. (last_before prev w, s', c') \<in> set (paths r (prev, w @ s', cap))"
proof (induction r arbitrary: prev w s' cap)
  case (Chars cls lo hi)
  let ?n = "length w"
  have a: "?n \<le> length (takeWhile cls (w @ s'))"
    using Chars by (auto intro: list_all_takeWhile)
  have "?n \<in> set (rev [lo ..< Suc (case hi of None \<Rightarrow> length (takeWhile cls (w @ s'))
                                      | Some h \<Rightarrow> min h (length (takeWhile cls (w @ s'))))])"
    using Chars a by (auto split: option.splits)
  then show ?case
    by (auto simp: Let_def image_iff intro!: bexI[of _ ?n])
next
  case Boundary
  then show ?case by auto
next
  case (Seq r1 r2)
  then obtain u v where uv: "w = u @ v" "consumes r1 prev u (v @ s')"
      "consumes r2 (last_before prev u) v s'"
    by auto
  from Seq.IH(1)[OF uv(2), of cap] obtain c1 where
    c1: "(last_before prev u, v @ s', c1) \<in> set (paths r1 (prev, u @ v @ s', cap))" by blast
  from Seq.IH(2)[OF uv(3), of c1] obtain c2 where
    c2: "(last_before (last_before prev u) v, s', c2) \<in> set (paths r2 (last_before prev u, v @ s', c1))"
    by blast
  show ?case
    using c1 c2 uv(1) by (auto intro!: exI[of _ c2] bexI[of _ "(last_before prev u, v @ s', c1)"])
next
  case (Alt r1 r2)
  from Alt.prems have "consumes r1 prev w s' \<or> consumes r2 prev w s'" by simp
  then show ?case
  proof
    assume "consumes r1 prev w s'"
    from Alt.IH(1)[OF this, of cap] show ?thesis by auto
  next
    assume "consumes r2 prev w s'"
    from Alt.IH(2)[OF this, of cap] show ?thesis by auto
  qed
next
  case (Group r)
  from Group.IH[OF Group.prems[simplified], of cap] obtain c where
    "(last_before prev w, s', c) \<in> set (paths r (prev, w @ s', cap))" by blast
  then show ?case by (auto simp: image_iff intro!: bexI[of _ "(last_before prev w, s', c)"])
qed

lemma match_at_None:
  "match_at r prev s = None \<longleftrightarrow> (\<forall>w s'. s = w @ s' \<longrightarrow> \<not> consumes r prev w s')"
proof
  assume n: "match_at r prev s = None"
  then have e: "paths r (prev, s, None) = []"
    by (auto simp: match_at_def split: list.splits)
  show "\<forall>w s'. s = w @ s' \<longrightarrow> \<not> consumes r prev w s'"
  proof (intro allI impI notI)
    fix w s' assume "s = w @ s'" "consumes r prev w s'"
    then show False using paths_complete[of r prev w s' None] e by auto
  qed
next
  assume a: "\<forall>w s'. s = w @ s' \<longrightarrow> \<not> consumes r prev w s'"
  show "match_at r prev s = None"
  proof (cases "paths r (prev, s, None)")
    case Nil
    then show ?thesis by (simp add: match_at_def)
  next
    case (Cons st rest)
    obtain p' s' c' where "st = (p', s', c')" by (cases st)
    then have "(p', s', c') \<in> set (paths r (prev, s, None))" using Cons by simp
    then show ?thesis using a by (auto dest!: paths_sound)
  qed
qed

lemma match_at_Some:
  "match_at r prev s = Some (n, cap) \<Longrightarrow> n \<le> length s \<and> consumes r prev (take n s) (drop n s)"
proof -
  assume m: "match_at r prev s = Some (n, cap)"
  then obtain p' s' rest where p: "paths r (prev, s, None) = (p', s', cap) # rest" "n = length s - length s'"
    by (auto simp: match_at_def split: list.splits)
  then have "(p', s', cap) \<in> set (paths r (prev, s, None))" by simp
  then obtain w where "s = w @ s'" "consumes r prev w s'" by (auto dest!: paths_sound)
  then show ?thesis using p(2) by auto
qed

section \<open>The global replacement\<close>

lemma replace_from_skip:
  "k \<le> length s \<Longrightarrow>
     replace_from r f k prev s = replace_from r f 0 (last_before prev (take k s)) (drop k s)"
proof (induction s arbitrary: k prev)
  case Nil
  then show ?case by simp
next
  case (Cons c cs)
  show ?case
  proof (cases k)
    case 0
    then show ?thesis by simp
  next
    case (Suc j)
    then have "j \<le> length cs" using Cons.prems by simp
    from Cons.IH[OF this, of "Some c"] show ?thesis
      using Suc by (simp add: last_before_def)
  qed
qed

lemma replace_from_Nil:
  "match_at r prev [] = None \<Longrightarrow> replace_from r f 0 prev [] = []"
  by simp

lemma replace_from_miss:
  "match_at r prev (c # cs) = None \<Longrightarrow>
     replace_from r f 0 prev (c # cs) = c # replace_from r f 0 (Some c) cs"
  by simp

lemma replace_from_hit:
  assumes "match_at r prev s = Some (n, cap)" and "0 < n"
  shows "replace_from r f 0 prev s
           = f cap @ replace_from r f 0 (last_before prev (take n s)) (drop n s)"
proof -
  from assms(1) have le: "n \<le> length s" by (auto dest: match_at_Some)
  then obtain c cs where s: "s = c # cs" using assms(2) by (cases s) auto
  obtain j where j: "n = Suc j" using assms(2) by (cases n) auto
  have "replace_from r f 0 prev s = f cap @ replace_from r f j (Some c) cs"
    using assms(1) s j by simp
  also have "replace_from r f j (Some c) cs
             = replace_from r f 0 (last_before (Some c) (take j cs)) (drop j cs)"
    using le s j by (intro replace_from_skip) simp
  also have "last_before (Some c) (take j cs) = last_before prev (take n s)"
    using s j by (simp add: last_before_def)
  also have "drop j cs = drop n s" using s j by simp
  finally show ?thesis .
qed

text \<open>A text in which the pattern matches nowhere is left as it is.\<close>

lemma replace_from_id:
  "(\<And>u v. s = u @ v \<Longrightarrow> match_at r (last_before prev u) v = None) \<Longrightarrow>
     replace_from r f 0 prev s = s"
proof (induction s arbitrary: prev)
  case Nil
  from Nil[of "[]" "[]"] show ?case by simp
next
  case (Cons c cs)
  from Cons.prems[of "[]" "c # cs"] have m: "match_at r prev (c # cs) = None" by simp
  have "replace_from r f 0 (Some c) cs = cs"
  proof (rule Cons.IH)
    fix u v assume "cs = u @ v"
    then have "c # cs = (c # u) @ v" by simp
    from Cons.prems[OF this] show "match_at r (last_before (Some c) u) v = None"
      by (cases "u = []") (simp_all add: last_before_def)
  qed
  then show ?case using m by simp
qed

section \<open>No match is left behind: patterns without word boundaries\<close>

text \<open>
  \<open>W\<close> is the set of words a pattern matches, whatever stands around them; \<open>P\<close> is the
  fixed part of what each match of the scanning pattern is replaced by, after a prefix of
  the match that the replacement keeps. The invariant \<open>I\<close> says what is known about the
  input that is still to be scanned.
\<close>

lemma prefix_of_append:
  "x @ z = w @ y \<Longrightarrow> length w \<le> length x \<Longrightarrow> \<exists>y0. x = w @ y0"
  by (metis append_eq_append_conv_if append_take_drop_id)

lemma no_word_enters:
  assumes R1: "\<And>prev s n cap. match_at r prev s = Some (n, cap) \<Longrightarrow>
                 0 < n \<and> (\<exists>k\<le>n. f cap = take k s @ P)"
    and W2: "\<And>a b w y. W w \<Longrightarrow> a @ P @ b = w @ y \<Longrightarrow> length w \<le> length a"
    and w: "W w"
  shows "a @ replace_from r f 0 prev s = w @ y \<Longrightarrow> \<exists>y'. a @ s = w @ y'"
proof (induction "length s" arbitrary: s a prev y rule: less_induct)
  case less
  show ?case
  proof (cases "match_at r prev s")
    case None
    show ?thesis
    proof (cases s)
      case Nil
      then show ?thesis using less.prems None by simp
    next
      case (Cons c cs)
      then have "(a @ [c]) @ replace_from r f 0 (Some c) cs = w @ y"
        using less.prems None by simp
      moreover have "length cs < length s" using Cons by simp
      ultimately have "\<exists>y'. (a @ [c]) @ cs = w @ y'" by (rule less.hyps[rotated])
      then show ?thesis using Cons by simp
    qed
  next
    case (Some x)
    obtain n cap where x: "x = (n, cap)" by (cases x)
    from R1[OF Some[unfolded x]] obtain k where k: "0 < n" "k \<le> n" "f cap = take k s @ P"
      by blast
    have le: "n \<le> length s" using Some x by (auto dest: match_at_Some)
    have "replace_from r f 0 prev s
            = take k s @ P @ replace_from r f 0 (last_before prev (take n s)) (drop n s)"
      using replace_from_hit[OF Some[unfolded x] k(1), of f] k(3) by simp
    then have "(a @ take k s) @ P @ replace_from r f 0 (last_before prev (take n s)) (drop n s) = w @ y"
      using less.prems by simp
    from W2[OF w this] have "length w \<le> length (a @ take k s)" .
    then obtain y0 where "a @ take k s = w @ y0"
      using \<open>(a @ take k s) @ P @ replace_from r f 0 (last_before prev (take n s)) (drop n s) = w @ y\<close>
      by (meson prefix_of_append)
    then have "a @ s = w @ y0 @ drop k s"
      by (metis append.assoc append_take_drop_id)
    then show ?thesis by blast
  qed
qed

lemma no_word_left:
  assumes R1: "\<And>prev s n cap. match_at r prev s = Some (n, cap) \<Longrightarrow>
                 0 < n \<and> (\<exists>k\<le>n. f cap = take k s @ P)"
    and W1: "\<not> W []"
    and W2: "\<And>a b w y. W w \<Longrightarrow> a @ P @ b = w @ y \<Longrightarrow> length w \<le> length a"
    and W3: "\<And>i b w y. 0 < i \<Longrightarrow> i < length P \<Longrightarrow> W w \<Longrightarrow> drop i P @ b = w @ y \<Longrightarrow> False"
    and I1: "\<And>prev c cs. I prev (c # cs) \<Longrightarrow> match_at r prev (c # cs) = None \<Longrightarrow>
                 I (Some c) cs \<and> (\<forall>w y. W w \<longrightarrow> c # cs \<noteq> w @ y)"
    and I2: "\<And>prev s n cap k. I prev s \<Longrightarrow> match_at r prev s = Some (n, cap) \<Longrightarrow>
                 f cap = take k s @ P \<Longrightarrow> k \<le> n \<Longrightarrow>
                 I (last_before prev (take n s)) (drop n s)
                 \<and> (\<forall>j w y. j < k \<longrightarrow> W w \<longrightarrow> drop j (take k s) \<noteq> w @ y)"
  shows "I prev s \<Longrightarrow> replace_from r f 0 prev s = u @ w @ v \<Longrightarrow> W w \<Longrightarrow> False"
proof (induction "length s" arbitrary: s prev u rule: less_induct)
  case less
  note inv = less.prems(1) and out = less.prems(2) and w = less.prems(3)
  have ne: "w \<noteq> []" using w W1 by auto
  show ?case
  proof (cases "match_at r prev s")
    case None
    show ?thesis
    proof (cases s)
      case Nil
      then show ?thesis using out None ne by simp
    next
      case (Cons c cs)
      have o: "c # replace_from r f 0 (Some c) cs = u @ w @ v"
        using out None Cons by simp
      from I1[OF inv[unfolded Cons] None[unfolded Cons]]
      have i: "I (Some c) cs" and nw: "\<And>w y. W w \<Longrightarrow> c # cs \<noteq> w @ y" by auto
      show ?thesis
      proof (cases u)
        case Nil
        then have "[] @ replace_from r f 0 prev s = w @ v" using out by simp
        have "\<exists>y'. [] @ s = w @ y'"
        proof (rule no_word_enters[where r=r and f=f and P=P and W=W and prev=prev and y=v])
          show "\<And>prev s n cap. match_at r prev s = Some (n, cap) \<Longrightarrow>
                  0 < n \<and> (\<exists>k\<le>n. f cap = take k s @ P)" by (rule R1)
          show "\<And>a b w y. W w \<Longrightarrow> a @ P @ b = w @ y \<Longrightarrow> length w \<le> length a" by (rule W2)
          show "W w" by (rule w)
          show "[] @ replace_from r f 0 prev s = w @ v" by fact
        qed
        then obtain y' where "s = w @ y'" by auto
        then show ?thesis using nw[OF w] Cons by simp
      next
        case (Cons c' u')
        then have "replace_from r f 0 (Some c) cs = u' @ w @ v" using o by auto
        moreover have "length cs < length s" using \<open>s = c # cs\<close> by simp
        ultimately show ?thesis using less.hyps i w by blast
      qed
    qed
  next
    case (Some x)
    obtain n cap where x: "x = (n, cap)" by (cases x)
    note m = Some[unfolded x]
    from R1[OF m] obtain k where k: "0 < n" "k \<le> n" "f cap = take k s @ P" by blast
    have le: "n \<le> length s" using m by (auto dest: match_at_Some)
    define rest where "rest = replace_from r f 0 (last_before prev (take n s)) (drop n s)"
    have o: "take k s @ P @ rest = u @ w @ v"
      using replace_from_hit[OF m k(1), of f] k(3) out by (simp add: rest_def)
    from I2[OF inv m k(3) k(2)]
    have i: "I (last_before prev (take n s)) (drop n s)"
      and nk: "\<And>j w y. j < k \<Longrightarrow> W w \<Longrightarrow> drop j (take k s) \<noteq> w @ y" by auto
    have lk: "length (take k s) = k" using k(2) le by simp
    consider "length u < k" | "k \<le> length u" "length u < k + length P" | "k + length P \<le> length u"
      by linarith
    then show ?thesis
    proof cases
      case 1
      have "drop (length u) (take k s @ P @ rest) = w @ v" using o by simp
      then have e: "drop (length u) (take k s) @ P @ rest = w @ v" using 1 lk by simp
      from W2[OF w e] have "length w \<le> length (drop (length u) (take k s))" .
      with e obtain y0 where "drop (length u) (take k s) = w @ y0"
        by (meson prefix_of_append)
      then show ?thesis using nk[OF 1 w] by blast
    next
      case 2
      have "drop (length u) (take k s @ P @ rest) = w @ v" using o by simp
      then have e: "drop (length u - k) P @ rest = w @ v" using 2 lk by simp
      show ?thesis
      proof (cases "length u = k")
        case True
        then have "[] @ P @ rest = w @ v" using e by simp
        from W2[OF w this] show ?thesis using ne by simp
      next
        case False
        then have "0 < length u - k" "length u - k < length P" using 2 by auto
        then show ?thesis using W3 w e by blast
      qed
    next
      case 3
      have "drop (k + length P) (take k s @ P @ rest) = drop (k + length P) (u @ w @ v)"
        using o by simp
      then have "rest = drop (k + length P) u @ w @ v" using 3 lk by simp
      moreover have "length (drop n s) < length s" using k(1) le by simp
      ultimately show ?thesis using less.hyps i w unfolding rest_def by blast
    qed
  qed
qed

section \<open>Reading properties of the matches off a pattern\<close>

lemma consumes_SeqI:
  "consumes a p u (v @ rs) \<Longrightarrow> consumes b (last_before p u) v rs
   \<Longrightarrow> consumes (Seq a b) p (u @ v) rs"
  apply (simp only: consumes.simps)
  apply (rule exI[of _ u])
  apply (rule exI[of _ v])
  apply simp
  done

lemma consumes_SeqE:
  assumes "consumes (Seq a b) p w rs"
  obtains u v where "w = u @ v" "consumes a p u (v @ rs)" "consumes b (last_before p u) v rs"
  using assms by (simp only: consumes.simps) blast

lemma consumes_Alt: "consumes (Alt a b) p w rs = (consumes a p w rs \<or> consumes b p w rs)"
  by simp

lemma consumes_Group: "consumes (Group r) p w rs = consumes r p w rs"
  by simp

fun boundary_free :: "regex \<Rightarrow> bool" where
  "boundary_free (Chars cls lo hi) = True"
| "boundary_free Boundary = False"
| "boundary_free (Seq a b) = (boundary_free a \<and> boundary_free b)"
| "boundary_free (Alt a b) = (boundary_free a \<and> boundary_free b)"
| "boundary_free (Group r) = boundary_free r"

lemma consumes_context_free:
  "boundary_free r \<Longrightarrow> consumes r p w rs \<Longrightarrow> consumes r p2 w q"
proof (induction r arbitrary: p w rs p2 q)
  case (Chars cls lo hi p w rs p2 q)
  then show ?case by simp
next
  case (Boundary p w rs p2 q)
  then show ?case by simp
next
  case (Seq a b p w rs p2 q)
  from Seq.prems(2) obtain u v where uv: "w = u @ v" "consumes a p u (v @ rs)"
      "consumes b (last_before p u) v rs"
    by auto
  from Seq.prems(1) have bf: "boundary_free a" "boundary_free b" by auto
  have "consumes a p2 u (v @ q)" using Seq.IH(1)[OF bf(1) uv(2)] .
  moreover have "consumes b (last_before p2 u) v q" using Seq.IH(2)[OF bf(2) uv(3)] .
  ultimately show ?case unfolding uv(1) by (rule consumes_SeqI)
next
  case (Alt a b p w rs p2 q)
  from Alt.prems(1) have bf: "boundary_free a" "boundary_free b" by auto
  from Alt.prems(2) have "consumes a p w rs \<or> consumes b p w rs" by simp
  then show ?case
  proof
    assume "consumes a p w rs"
    from Alt.IH(1)[OF bf(1) this] show ?thesis by simp
  next
    assume "consumes b p w rs"
    from Alt.IH(2)[OF bf(2) this] show ?thesis by simp
  qed
next
  case (Group r p w rs p2 q)
  from Group.prems have "boundary_free r" "consumes r p w rs" by auto
  from Group.IH[OF this] show ?case by simp
qed

text \<open>The code units a match can contain.\<close>

fun allowed :: "regex \<Rightarrow> nat \<Rightarrow> bool" where
  "allowed (Chars cls lo hi) c = cls c"
| "allowed Boundary c = False"
| "allowed (Seq a b) c = (allowed a c \<or> allowed b c)"
| "allowed (Alt a b) c = (allowed a c \<or> allowed b c)"
| "allowed (Group r) c = allowed r c"

lemma consumes_allowed: "consumes r p w rs \<Longrightarrow> c \<in> set w \<Longrightarrow> allowed r c"
proof (induction r arbitrary: p w rs)
  case (Chars cls lo hi)
  then show ?case by (auto simp: list_all_iff)
next
  case (Seq a b)
  from Seq.prems(1) obtain u v where uv: "w = u @ v" "consumes a p u (v @ rs)"
      "consumes b (last_before p u) v rs"
    by auto
  from Seq.prems(2) uv(1) have "c \<in> set u \<or> c \<in> set v" by simp
  then show ?case using Seq.IH(1)[OF uv(2)] Seq.IH(2)[OF uv(3)] by auto
next
  case (Alt a b)
  from Alt.prems have "consumes a p w rs \<or> consumes b p w rs" by simp
  then show ?case
  proof
    assume "consumes a p w rs"
    from Alt.IH(1)[OF this Alt.prems(2)] show ?thesis by simp
  next
    assume "consumes b p w rs"
    from Alt.IH(2)[OF this Alt.prems(2)] show ?thesis by simp
  qed
next
  case Boundary
  then show ?case by simp
next
  case (Group r)
  from Group.prems have "consumes r p w rs" by simp
  from Group.IH[OF this Group.prems(2)] show ?case by simp
qed

text \<open>The least and the greatest length of a match (\<open>None\<close>: unbounded).\<close>

fun min_len :: "regex \<Rightarrow> nat" where
  "min_len (Chars cls lo hi) = lo"
| "min_len Boundary = 0"
| "min_len (Seq a b) = min_len a + min_len b"
| "min_len (Alt a b) = min (min_len a) (min_len b)"
| "min_len (Group r) = min_len r"

lemma consumes_min_len: "consumes r p w rs \<Longrightarrow> min_len r \<le> length w"
proof (induction r arbitrary: p w rs)
  case (Seq a b)
  from Seq.prems obtain u v where uv: "w = u @ v" "consumes a p u (v @ rs)" "consumes b (last_before p u) v rs"
    by auto
  from Seq.IH(1)[OF uv(2)] Seq.IH(2)[OF uv(3)] uv(1) show ?case by simp
next
  case (Alt a b)
  then show ?case by (auto simp: min_def dest: Alt.IH(1) Alt.IH(2) split: if_splits)
qed auto

fun max_len :: "regex \<Rightarrow> nat option" where
  "max_len (Chars cls lo hi) = hi"
| "max_len Boundary = Some 0"
| "max_len (Seq a b) =
     (case (max_len a, max_len b) of (Some x, Some y) \<Rightarrow> Some (x + y) | other \<Rightarrow> None)"
| "max_len (Alt a b) =
     (case (max_len a, max_len b) of (Some x, Some y) \<Rightarrow> Some (max x y) | other \<Rightarrow> None)"
| "max_len (Group r) = max_len r"

lemma consumes_max_len: "consumes r p w rs \<Longrightarrow> max_len r = Some h \<Longrightarrow> length w \<le> h"
proof (induction r arbitrary: p w rs h)
  case (Seq a b)
  from Seq.prems(1) obtain u v where uv: "w = u @ v" "consumes a p u (v @ rs)" "consumes b (last_before p u) v rs"
    by auto
  from Seq.prems(2) obtain x y where xy: "max_len a = Some x" "max_len b = Some y" "h = x + y"
    by (auto split: option.splits)
  from Seq.IH(1)[OF uv(2) xy(1)] Seq.IH(2)[OF uv(3) xy(2)] uv(1) xy(3) show ?case by simp
next
  case (Alt a b)
  from Alt.prems(2) obtain x y where xy: "max_len a = Some x" "max_len b = Some y" "h = max x y"
    by (auto split: option.splits)
  from Alt.prems(1) have "consumes a p w rs \<or> consumes b p w rs" by simp
  then show ?case
  proof
    assume "consumes a p w rs"
    from Alt.IH(1)[OF this xy(1)] show ?thesis using xy(3) by simp
  next
    assume "consumes b p w rs"
    from Alt.IH(2)[OF this xy(2)] show ?thesis using xy(3) by simp
  qed
next
  case (Chars cls lo hi)
  then show ?case by simp
next
  case Boundary
  then show ?case by simp
next
  case (Group r)
  from Group.prems have "consumes r p w rs" "max_len r = Some h" by simp_all
  from Group.IH[OF this] show ?case .
qed

text \<open>Whether a match can be empty, and the code units a non-empty match can begin and end with.\<close>

fun nullable :: "regex \<Rightarrow> bool" where
  "nullable (Chars cls lo hi) = (lo = 0)"
| "nullable Boundary = True"
| "nullable (Seq a b) = (nullable a \<and> nullable b)"
| "nullable (Alt a b) = (nullable a \<or> nullable b)"
| "nullable (Group r) = nullable r"

lemma consumes_Nil_nullable: "consumes r p [] rs \<Longrightarrow> nullable r"
  by (induction r arbitrary: p rs) auto

fun firsts :: "regex \<Rightarrow> nat \<Rightarrow> bool" where
  "firsts (Chars cls lo hi) c = cls c"
| "firsts Boundary c = False"
| "firsts (Seq a b) c = (firsts a c \<or> (nullable a \<and> firsts b c))"
| "firsts (Alt a b) c = (firsts a c \<or> firsts b c)"
| "firsts (Group r) c = firsts r c"

lemma consumes_firsts: "consumes r p (c # w) rs \<Longrightarrow> firsts r c"
proof (induction r arbitrary: p w rs)
  case (Seq a b)
  from Seq.prems obtain u v where uv: "c # w = u @ v" "consumes a p u (v @ rs)"
      "consumes b (last_before p u) v rs"
    by auto
  show ?case
  proof (cases u)
    case Nil
    then show ?thesis using uv Seq.IH(2) by (auto dest: consumes_Nil_nullable)
  next
    case (Cons d u')
    then show ?thesis using uv Seq.IH(1) by auto
  qed
next
  case (Alt a b)
  from Alt.prems have "consumes a p (c # w) rs \<or> consumes b p (c # w) rs" by simp
  then show ?case using Alt.IH by (simp only: firsts.simps) blast
qed (auto simp: list_all_iff)

fun lasts :: "regex \<Rightarrow> nat \<Rightarrow> bool" where
  "lasts (Chars cls lo hi) c = cls c"
| "lasts Boundary c = False"
| "lasts (Seq a b) c = (lasts b c \<or> (nullable b \<and> lasts a c))"
| "lasts (Alt a b) c = (lasts a c \<or> lasts b c)"
| "lasts (Group r) c = lasts r c"

lemma consumes_lasts: "consumes r p (w @ [c]) rs \<Longrightarrow> lasts r c"
proof (induction r arbitrary: p w rs)
  case (Seq a b)
  from Seq.prems obtain u v where uv: "w @ [c] = u @ v" "consumes a p u (v @ rs)"
      "consumes b (last_before p u) v rs"
    by auto
  show ?case
  proof (cases v rule: rev_cases)
    case Nil
    then show ?thesis using uv Seq.IH(1) by (auto dest: consumes_Nil_nullable)
  next
    case (snoc v' d)
    then show ?thesis using uv Seq.IH(2)[of "last_before p u" v' rs] by auto
  qed
next
  case (Alt a b)
  from Alt.prems have "consumes a p (w @ [c]) rs \<or> consumes b p (w @ [c]) rs" by simp
  then show ?case using Alt.IH by (simp only: lasts.simps) blast
qed (auto simp: list_all_iff)

text \<open>\<open>requires r X\<close>: every match contains a code unit in \<open>X\<close>.\<close>

fun requires :: "regex \<Rightarrow> (nat \<Rightarrow> bool) \<Rightarrow> bool" where
  "requires (Chars cls lo hi) X = (0 < lo \<and> (\<forall>c. cls c \<longrightarrow> X c))"
| "requires Boundary X = False"
| "requires (Seq a b) X = (requires a X \<or> requires b X)"
| "requires (Alt a b) X = (requires a X \<and> requires b X)"
| "requires (Group r) X = requires r X"

lemma consumes_requires: "requires r X \<Longrightarrow> consumes r p w rs \<Longrightarrow> \<exists>c\<in>set w. X c"
proof (induction r arbitrary: p w rs)
  case (Chars cls lo hi)
  then obtain c w' where "w = c # w'" by (cases w) auto
  with Chars show ?case by auto
next
  case (Seq a b)
  from Seq.prems(2) obtain u v where uv: "w = u @ v" "consumes a p u (v @ rs)"
      "consumes b (last_before p u) v rs"
    by auto
  from Seq.prems(1) have "requires a X \<or> requires b X" by simp
  then show ?case
  proof
    assume "requires a X"
    from Seq.IH(1)[OF this uv(2)] show ?thesis using uv(1) by auto
  next
    assume "requires b X"
    from Seq.IH(2)[OF this uv(3)] show ?thesis using uv(1) by auto
  qed
next
  case Boundary
  then show ?case by simp
next
  case (Alt a b)
  from Alt.prems(2) have "consumes a p w rs \<or> consumes b p w rs" by simp
  then show ?case
  proof
    assume "consumes a p w rs"
    from Alt.IH(1)[OF _ this] Alt.prems(1) show ?thesis by simp
  next
    assume "consumes b p w rs"
    from Alt.IH(2)[OF _ this] Alt.prems(1) show ?thesis by simp
  qed
next
  case (Group r)
  from Group.prems have "requires r X" "consumes r p w rs" by auto
  from Group.IH[OF this] show ?case .
qed

text \<open>A pattern without a group leaves the capture as it is.\<close>

fun group_free :: "regex \<Rightarrow> bool" where
  "group_free (Chars cls lo hi) = True"
| "group_free Boundary = True"
| "group_free (Seq a b) = (group_free a \<and> group_free b)"
| "group_free (Alt a b) = (group_free a \<and> group_free b)"
| "group_free (Group r) = False"

lemma paths_capture_kept:
  "group_free r \<Longrightarrow> (p', s', c') \<in> set (paths r (prev, s, cap)) \<Longrightarrow> c' = cap"
proof (induction r arbitrary: prev s cap p' s' c')
  case (Seq a b)
  from Seq.prems(2) obtain st1 where st1: "st1 \<in> set (paths a (prev, s, cap))"
      and st2: "(p', s', c') \<in> set (paths b st1)"
    by auto
  obtain p1 s1 c1 where e: "st1 = (p1, s1, c1)" by (cases st1)
  from Seq.prems(1) have gf: "group_free a" "group_free b" by simp_all
  from Seq.IH(1)[OF gf(1) st1[unfolded e]] have "c1 = cap" .
  moreover from Seq.IH(2)[OF gf(2) st2[unfolded e]] have "c' = c1" .
  ultimately show ?case by simp
next
  case (Chars cls lo hi)
  then show ?case by (auto simp: Let_def)
next
  case Boundary
  then show ?case by (auto split: if_splits)
next
  case (Alt a b)
  from Alt.prems(2) have "(p', s', c') \<in> set (paths a (prev, s, cap))
      \<or> (p', s', c') \<in> set (paths b (prev, s, cap))" by simp
  then show ?case
  proof
    assume m: "(p', s', c') \<in> set (paths a (prev, s, cap))"
    from Alt.prems(1) have "group_free a" by simp
    from Alt.IH(1)[OF this m] show ?thesis .
  next
    assume m: "(p', s', c') \<in> set (paths b (prev, s, cap))"
    from Alt.prems(1) have "group_free b" by simp
    from Alt.IH(2)[OF this m] show ?thesis .
  qed
next
  case (Group r)
  then show ?case by simp
qed

lemma paths_group_capture:
  assumes "group_free b"
    and "(p', s', c') \<in> set (paths (Seq (Group g) b) (prev, s, cap))"
  shows "\<exists>u v. s = u @ v @ s' \<and> c' = Some u \<and> consumes g prev u (v @ s')
               \<and> consumes b (last_before prev u) v s'"
proof -
  from assms(2) have "(p', s', c') \<in> set (concat (map (paths b) (paths (Group g) (prev, s, cap))))"
    by (simp only: paths.simps)
  then obtain st1 where st1: "st1 \<in> set (paths (Group g) (prev, s, cap))"
      and st2: "(p', s', c') \<in> set (paths b st1)"
    by (auto simp del: paths.simps)
  obtain p1 s1 c1 where e: "st1 = (p1, s1, c1)" by (cases st1)
  from st1[unfolded e] have
    "(p1, s1, c1) \<in> (\<lambda>(prev', s', cap'). (prev', s', Some (take (length s - length s') s)))
                      ` set (paths g (prev, s, cap))"
    by simp
  then obtain st0 where st0: "st0 \<in> set (paths g (prev, s, cap))"
      "(p1, s1, c1) = (\<lambda>(prev', s', cap'). (prev', s', Some (take (length s - length s') s))) st0"
    by blast
  obtain p0 s0 c0 where e0: "st0 = (p0, s0, c0)" by (cases st0)
  have g: "(p1, s1, c0) \<in> set (paths g (prev, s, cap))" "c1 = Some (take (length s - length s1) s)"
    using st0 e0 by auto
  from paths_sound[OF g(1)] obtain u where
    u: "s = u @ s1" "consumes g prev u s1" "p1 = last_before prev u" by blast
  from paths_sound[OF st2[unfolded e]] obtain v where
    v: "s1 = v @ s'" "consumes b p1 v s'" by blast
  have "c' = c1" using paths_capture_kept[OF assms(1) st2[unfolded e]] .
  moreover have "take (length s - length s1) s = u" using u(1) by simp
  ultimately show ?thesis using u v g(2) by auto
qed

section \<open>Where a match can lie in a text with placeholders\<close>

lemma consumes_nonempty: "0 < min_len q \<Longrightarrow> consumes q p w rs \<Longrightarrow> w \<noteq> []"
  using consumes_min_len[of q p w rs] by auto

lemma consumes_last: "consumes q p w rs \<Longrightarrow> w \<noteq> [] \<Longrightarrow> lasts q (last w)"
  using consumes_lasts[of q p "butlast w" "last w" rs] by simp

lemma consumes_hd: "consumes q p w rs \<Longrightarrow> w \<noteq> [] \<Longrightarrow> firsts q (hd w)"
  using consumes_firsts[of q p "hd w" "tl w" rs] by simp

text \<open>
  A match that begins before a placeholder ends before it: the placeholder has a code unit
  \<open>z\<close> that no match contains, and no match ends with a code unit before \<open>z\<close>.
\<close>

lemma stops_before:
  assumes z: "\<not> allowed q z"
    and pre: "\<forall>c\<in>set pre. \<not> lasts q c"
    and w: "consumes q p w rs"
    and e: "a @ (pre @ z # post) @ b = w @ y"
  shows "length w \<le> length a"
proof (rule ccontr)
  assume "\<not> length w \<le> length a"
  then have l: "length a < length w" by simp
  define m where "m = length w - length a"
  have m: "0 < m" "length w = length a + m" using l by (simp_all add: m_def)
  have "w = take (length w) (a @ (pre @ z # post) @ b)" using e by simp
  then have w_eq: "w = a @ take m (pre @ z # post @ b)" using m by simp
  show False
  proof (cases "m \<le> length pre")
    case True
    then have t: "take m (pre @ z # post @ b) = take m pre" by simp
    have ne: "take m pre \<noteq> []" using m(1) True by auto
    have "last w = last (take m pre)" using w_eq t ne by simp
    also have "\<dots> \<in> set (take m pre)" using ne by (rule last_in_set)
    finally have "last w \<in> set pre" by (auto dest: in_set_takeD)
    moreover have "lasts q (last w)" using w ne w_eq t by (intro consumes_last) auto
    ultimately show False using pre by blast
  next
    case False
    then have "take m (pre @ z # post @ b) = pre @ z # take (m - Suc (length pre)) (post @ b)"
      by (simp add: take_Cons')
    then have "z \<in> set w" using w_eq by simp
    then show False using consumes_allowed[OF w] z by blast
  qed
qed

text \<open>
  No match begins inside a placeholder \<open>pre @ mid @ [z]\<close>: no match begins with a code unit
  of \<open>pre\<close> after the first, every match needs a code unit that \<open>mid\<close> does not have, and no
  match contains \<open>z\<close>.
\<close>

lemma starts_not_inside:
  assumes req: "requires q X"
    and z: "\<not> allowed q z"
    and mid: "\<forall>c\<in>set mid. \<not> X c"
    and pre: "\<forall>c\<in>set (tl pre). \<not> firsts q c"
    and pne: "pre \<noteq> []"
    and i: "0 < i" "i < length (pre @ mid @ [z])"
    and w: "consumes q p w rs"
    and e: "drop i (pre @ mid @ [z]) @ b = w @ y"
  shows False
proof -
  from consumes_requires[OF req w] obtain x where x: "x \<in> set w" "X x" by blast
  then have ne: "w \<noteq> []" by auto
  show False
  proof (cases "i < length pre")
    case True
    then have "drop i (pre @ mid @ [z]) = pre ! i # drop (Suc i) pre @ mid @ [z]"
      by (simp add: Cons_nth_drop_Suc)
    then have "hd w = pre ! i" using e ne by (cases w) auto
    moreover have "pre ! i \<in> set (tl pre)"
      using True i(1) pne by (cases pre) (auto simp: nth_Cons')
    ultimately show False using consumes_hd[OF w ne] pre by auto
  next
    case False
    define d where "d = drop (i - length pre) mid"
    have d: "drop i (pre @ mid @ [z]) = d @ [z]" using False i(2) by (simp add: d_def)
    have e': "d @ z # b = w @ y" using e unfolding d by simp
    show False
    proof (cases "length w \<le> length d")
      case True
      with e' obtain y0 where "d = w @ y0" by (meson prefix_of_append)
      then have "set w \<subseteq> set d" by auto
      moreover have "set d \<subseteq> set mid" unfolding d_def by (rule set_drop_subset)
      ultimately have "set w \<subseteq> set mid" by blast
      then show False using x mid by blast
    next
      case False
      have "w = take (length w) (d @ z # b)" using e' by simp
      also have "\<dots> = d @ z # take (length w - Suc (length d)) b"
        using False by (simp add: take_Cons')
      finally have "z \<in> set w" by (metis in_set_conv_decomp)
      then show False using consumes_allowed[OF w] z by blast
    qed
  qed
qed

section \<open>What a match is replaced by\<close>

lemma match_at_positive:
  "0 < min_len r \<Longrightarrow> match_at r prev s = Some (n, cap) \<Longrightarrow> 0 < n"
  using match_at_Some[of r prev s n cap] consumes_min_len[of r prev "take n s" "drop n s"]
  by auto

lemma match_at_capture:
  assumes b: "group_free b"
    and m: "match_at (Seq (Group g) b) prev s = Some (n, cap)"
  shows "\<exists>u. cap = Some u \<and> u = take (length u) s \<and> length u \<le> n
             \<and> consumes g prev u (drop (length u) s)"
proof -
  from m obtain p' s' rest where
    p: "paths (Seq (Group g) b) (prev, s, None) = (p', s', cap) # rest" "n = length s - length s'"
    by (auto simp: match_at_def split: list.splits)
  then have "(p', s', cap) \<in> set (paths (Seq (Group g) b) (prev, s, None))" by simp
  from paths_group_capture[OF b this] obtain u v where
    uv: "s = u @ v @ s'" "cap = Some u" "consumes g prev u (v @ s')" by blast
  then show ?thesis using p(2) by auto
qed

section \<open>Texts free of a pattern\<close>

text \<open>
  For a pattern without word boundaries, whether a word matches does not depend on what
  stands around it. A text is free of such a pattern when no part of it matches.
\<close>

definition free_of :: "regex \<Rightarrow> jsstring \<Rightarrow> bool" where
  "free_of q s \<longleftrightarrow> (\<forall>u w v. s = u @ w @ v \<longrightarrow> \<not> consumes q None w [])"

lemma free_of_Cons: "free_of q (c # cs) \<Longrightarrow> free_of q cs"
  unfolding free_of_def
proof (intro allI impI)
  fix u w v
  assume a: "\<forall>u w v. c # cs = u @ w @ v \<longrightarrow> \<not> consumes q None w []" and "cs = u @ w @ v"
  then have "c # cs = (c # u) @ w @ v" by simp
  with a show "\<not> consumes q None w []" by blast
qed

lemma free_of_drop: "free_of q s \<Longrightarrow> free_of q (drop n s)"
  unfolding free_of_def
proof (intro allI impI)
  fix u w v
  assume a: "\<forall>u w v. s = u @ w @ v \<longrightarrow> \<not> consumes q None w []" and "drop n s = u @ w @ v"
  then have "s = (take n s @ u) @ w @ v" by (metis append.assoc append_take_drop_id)
  with a show "\<not> consumes q None w []" by blast
qed

lemma free_of_part: "free_of q s \<Longrightarrow> s = a @ w @ y \<Longrightarrow> \<not> consumes q None w []"
  unfolding free_of_def by blast

lemma free_of_no_match:
  assumes bf: "boundary_free q" and f: "free_of q s" and s: "s = u @ v"
  shows "match_at q p v = None"
proof -
  have "\<not> consumes q p w s'" if "v = w @ s'" for w s'
  proof
    assume "consumes q p w s'"
    then have "consumes q None w []" using bf by (rule consumes_context_free[rotated])
    moreover have "s = u @ w @ s'" using s that by simp
    ultimately show False using f free_of_part by blast
  qed
  then show ?thesis unfolding match_at_None by blast
qed

text \<open>A text free of a pattern is left as it is by the replacement of that pattern.\<close>

lemma replace_all_free:
  "boundary_free q \<Longrightarrow> free_of q s \<Longrightarrow> replace_all q f s = s"
  unfolding replace_all_def
  by (rule replace_from_id) (rule free_of_no_match)

text \<open>Replacing the matches of \<open>r\<close> in a text free of \<open>q\<close> gives a text free of \<open>q\<close>.\<close>

lemma stays_free:
  assumes R1: "\<And>prev s n cap. match_at r prev s = Some (n, cap) \<Longrightarrow>
                 0 < n \<and> (\<exists>k\<le>n. f cap = take k s @ P)"
    and W1: "0 < min_len q"
    and W2: "\<And>a b w y. consumes q None w [] \<Longrightarrow> a @ P @ b = w @ y \<Longrightarrow> length w \<le> length a"
    and W3: "\<And>i b w y. 0 < i \<Longrightarrow> i < length P \<Longrightarrow> consumes q None w [] \<Longrightarrow>
                 drop i P @ b = w @ y \<Longrightarrow> False"
    and s: "free_of q s"
  shows "free_of q (replace_from r f 0 prev s)"
  unfolding free_of_def
proof (intro allI impI notI)
  fix u w v
  assume out: "replace_from r f 0 prev s = u @ w @ v" and w: "consumes q None w []"
  show False
  proof (rule no_word_left[where r=r and f=f and P=P and W="\<lambda>w. consumes q None w []"
        and I="\<lambda>p s. free_of q s" and prev=prev and s=s and u=u and w=w and v=v])
    show "\<And>prev s n cap. match_at r prev s = Some (n, cap) \<Longrightarrow>
            0 < n \<and> (\<exists>k\<le>n. f cap = take k s @ P)" by (rule R1)
    show "\<not> consumes q None [] []" using W1 consumes_nonempty by blast
    show "\<And>a b w y. consumes q None w [] \<Longrightarrow> a @ P @ b = w @ y \<Longrightarrow> length w \<le> length a"
      by (rule W2)
    show "\<And>i b w y. 0 < i \<Longrightarrow> i < length P \<Longrightarrow> consumes q None w [] \<Longrightarrow>
            drop i P @ b = w @ y \<Longrightarrow> False" by (rule W3)
    show "free_of q s" by (rule s)
    show "replace_from r f 0 prev s = u @ w @ v" by (rule out)
    show "consumes q None w []" by (rule w)
  next
    fix prev :: "nat option" and c :: nat and cs :: jsstring
    assume f: "free_of q (c # cs)"
    have "c # cs \<noteq> w @ y" if "consumes q None w []" for w y
    proof
      assume "c # cs = w @ y"
      then have "c # cs = [] @ w @ y" by simp
      from free_of_part[OF f this] that show False by blast
    qed
    then show "free_of q cs \<and> (\<forall>w y. consumes q None w [] \<longrightarrow> c # cs \<noteq> w @ y)"
      using free_of_Cons[OF f] by blast
  next
    fix prev :: "nat option" and s :: jsstring and n k :: nat and cap :: "jsstring option"
    assume f: "free_of q s" and k: "k \<le> n"
    have "drop j (take k s) \<noteq> w @ y" if "consumes q None w []" for j w y
    proof
      assume e: "drop j (take k s) = w @ y"
      have "s = take k s @ drop k s" by simp
      also have "take k s = take j (take k s) @ drop j (take k s)"
        by (simp only: append_take_drop_id)
      finally have "s = take j (take k s) @ w @ (y @ drop k s)" using e by simp
      from free_of_part[OF f this] that show False by blast
    qed
    then show "free_of q (drop n s)
        \<and> (\<forall>j w y. j < k \<longrightarrow> consumes q None w [] \<longrightarrow> drop j (take k s) \<noteq> w @ y)"
      using free_of_drop[OF f] by blast
  qed
qed

text \<open>
  Replacing the matches of a pattern leaves a text free of the pattern, when the part of
  a match that the replacement keeps is shorter than every match.
\<close>

lemma becomes_free:
  assumes bf: "boundary_free r"
    and R1: "\<And>prev s n cap. match_at r prev s = Some (n, cap) \<Longrightarrow>
                 0 < n \<and> (\<exists>k\<le>n. k < min_len r \<and> f cap = take k s @ P)"
    and W2: "\<And>a b w y. consumes r None w [] \<Longrightarrow> a @ P @ b = w @ y \<Longrightarrow> length w \<le> length a"
    and W3: "\<And>i b w y. 0 < i \<Longrightarrow> i < length P \<Longrightarrow> consumes r None w [] \<Longrightarrow>
                 drop i P @ b = w @ y \<Longrightarrow> False"
  shows "free_of r (replace_from r f 0 prev s)"
  unfolding free_of_def
proof (intro allI impI notI)
  fix u w v
  assume out: "replace_from r f 0 prev s = u @ w @ v" and w: "consumes r None w []"
  have R1': "0 < n \<and> (\<exists>k\<le>n. f cap = take k s @ P)"
    if "match_at r prev s = Some (n, cap)" for prev s n cap
    using R1[OF that] by blast
  show False
  proof (rule no_word_left[where r=r and f=f and P=P and W="\<lambda>w. consumes r None w []"
        and I="\<lambda>p s. True" and prev=prev and s=s and u=u and w=w and v=v])
    show "\<And>prev s n cap. match_at r prev s = Some (n, cap) \<Longrightarrow>
            0 < n \<and> (\<exists>k\<le>n. f cap = take k s @ P)" by (rule R1')
    show "\<not> consumes r None [] []"
    proof
      assume "consumes r None [] []"
      then have "match_at r None [] \<noteq> None" unfolding match_at_None by simp
      then obtain n cap where "match_at r None [] = Some (n, cap)" by auto
      from R1[OF this] match_at_Some[OF this] show False by simp
    qed
    show "\<And>a b w y. consumes r None w [] \<Longrightarrow> a @ P @ b = w @ y \<Longrightarrow> length w \<le> length a"
      by (rule W2)
    show "\<And>i b w y. 0 < i \<Longrightarrow> i < length P \<Longrightarrow> consumes r None w [] \<Longrightarrow>
            drop i P @ b = w @ y \<Longrightarrow> False" by (rule W3)
    show True ..
    show "replace_from r f 0 prev s = u @ w @ v" by (rule out)
    show "consumes r None w []" by (rule w)
  next
    fix prev :: "nat option" and c :: nat and cs :: jsstring
    assume m: "match_at r prev (c # cs) = None"
    have "c # cs \<noteq> w @ y" if "consumes r None w []" for w y
    proof
      assume e: "c # cs = w @ y"
      have "consumes r prev w y" using bf that by (rule consumes_context_free)
      with m e show False unfolding match_at_None by blast
    qed
    then show "True \<and> (\<forall>w y. consumes r None w [] \<longrightarrow> c # cs \<noteq> w @ y)" by blast
  next
    fix prev :: "nat option" and s :: jsstring and n k :: nat and cap :: "jsstring option"
    assume m: "match_at r prev s = Some (n, cap)" and fk: "f cap = take k s @ P" and kn: "k \<le> n"
    from R1[OF m] obtain k' where k': "k' \<le> n" "k' < min_len r" "f cap = take k' s @ P" by blast
    have le: "n \<le> length s" using match_at_Some[OF m] by simp
    have "take k s = take k' s" using fk k'(3) by simp
    then have "length (take k s) = length (take k' s)" by simp
    then have "k = k'" using kn k'(1) le by simp
    have "drop j (take k s) \<noteq> w @ y" if "consumes r None w []" for j w y
    proof
      assume e: "drop j (take k s) = w @ y"
      then have "length w \<le> length (drop j (take k s))" by simp
      then have "length w \<le> k" by simp
      moreover have "min_len r \<le> length w" using that by (rule consumes_min_len)
      ultimately show False using k'(2) \<open>k = k'\<close> by simp
    qed
    then show "True \<and> (\<forall>j w y. j < k \<longrightarrow> consumes r None w [] \<longrightarrow> drop j (take k s) \<noteq> w @ y)"
      by blast
  qed
qed

section \<open>Placeholders in brackets\<close>

lemma constant_replacement:
  "0 < min_len r \<Longrightarrow> match_at r prev s = Some (n, cap) \<Longrightarrow>
     0 < n \<and> (\<exists>k\<le>n. k < min_len r \<and> (\<lambda>cap. P) cap = take k s @ P)"
  using match_at_positive[of r prev s n cap] by auto

lemma bracket_stops:
  assumes "\<not> allowed q 91" and "consumes q p w rs" and "a @ (91 # mid @ [93]) @ b = w @ y"
  shows "length w \<le> length a"
  using stops_before[where pre="[]" and z=91 and post="mid @ [93]" and q=q, OF assms(1) _ assms(2)]
    assms(3) by simp

lemma bracket_inside:
  assumes "requires q X" and "\<not> allowed q 93" and "\<forall>c\<in>set mid. \<not> X c"
    and "0 < i" and "i < length (91 # mid @ [93])"
    and "consumes q p w rs" and "drop i (91 # mid @ [93]) @ b = w @ y"
  shows False
  using starts_not_inside[where pre="[91]" and mid=mid and z=93 and q=q and X=X and i=i
      and p=p and w=w and rs=rs and b=b and y=y] assms
  by simp

lemma stays_free_bracket:
  assumes r: "0 < min_len r"
    and q: "0 < min_len q" "\<not> allowed q 91" "\<not> allowed q 93" "requires q X"
    and mid: "\<forall>c\<in>set mid. \<not> X c"
    and s: "free_of q s"
  shows "free_of q (replace_all r (\<lambda>cap. 91 # mid @ [93]) s)"
  unfolding replace_all_def
proof (rule stays_free[where P="91 # mid @ [93]"])
  show "\<And>prev s n cap. match_at r prev s = Some (n, cap) \<Longrightarrow>
          0 < n \<and> (\<exists>k\<le>n. 91 # mid @ [93] = take k s @ 91 # mid @ [93])"
    using constant_replacement[OF r] by blast
  show "0 < min_len q" by (rule q(1))
  show "\<And>a b w y. consumes q None w [] \<Longrightarrow> a @ (91 # mid @ [93]) @ b = w @ y
          \<Longrightarrow> length w \<le> length a"
    using bracket_stops[OF q(2)] by blast
  show "\<And>i b w y. 0 < i \<Longrightarrow> i < length (91 # mid @ [93]) \<Longrightarrow> consumes q None w [] \<Longrightarrow>
          drop i (91 # mid @ [93]) @ b = w @ y \<Longrightarrow> False"
    using bracket_inside[OF q(4) q(3) mid] by blast
  show "free_of q s" by (rule s)
qed

lemma becomes_free_bracket:
  assumes r: "boundary_free r" "0 < min_len r" "\<not> allowed r 91" "\<not> allowed r 93" "requires r X"
    and mid: "\<forall>c\<in>set mid. \<not> X c"
  shows "free_of r (replace_all r (\<lambda>cap. 91 # mid @ [93]) s)"
  unfolding replace_all_def
proof (rule becomes_free[where P="91 # mid @ [93]"])
  show "boundary_free r" by (rule r(1))
  show "\<And>prev s n cap. match_at r prev s = Some (n, cap) \<Longrightarrow>
          0 < n \<and> (\<exists>k\<le>n. k < min_len r \<and> 91 # mid @ [93] = take k s @ 91 # mid @ [93])"
    using constant_replacement[OF r(2)] by blast
  show "\<And>a b w y. consumes r None w [] \<Longrightarrow> a @ (91 # mid @ [93]) @ b = w @ y
          \<Longrightarrow> length w \<le> length a"
    using bracket_stops[OF r(3)] by blast
  show "\<And>i b w y. 0 < i \<Longrightarrow> i < length (91 # mid @ [93]) \<Longrightarrow> consumes r None w [] \<Longrightarrow>
          drop i (91 # mid @ [93]) @ b = w @ y \<Longrightarrow> False"
    using bracket_inside[OF r(5) r(4) mid] by blast
qed

section \<open>The four patterns\<close>

lemmas pattern_defs = emailRegex_def phoneRegex_def ipRegex_def secretRegex_def ignore_case_def
  one_def opt_def is_alpha_def is_alnum_def is_digit_def separator_def is_js_space_def

lemma email_facts:
  "boundary_free emailRegex" "min_len emailRegex = 6"
  "\<not> allowed emailRegex 91" "\<not> allowed emailRegex 93" "\<not> allowed emailRegex 58"
  "\<not> allowed emailRegex 32"
  "requires emailRegex (\<lambda>c. c = 64)"
  by (simp_all add: pattern_defs)

lemma phone_facts:
  "boundary_free phoneRegex" "min_len phoneRegex = 9"
  "\<not> allowed phoneRegex 91" "\<not> allowed phoneRegex 93" "\<not> allowed phoneRegex 58"
  "requires phoneRegex is_digit"
  by (simp_all add: pattern_defs)

lemma ip_facts:
  "min_len ipRegex = 7"
  "\<not> allowed ipRegex 91" "\<not> allowed ipRegex 93" "\<not> allowed ipRegex 58"
  "requires ipRegex is_digit"
  "firsts ipRegex c = is_digit c" "lasts ipRegex c = is_digit c"
  by (simp_all add: pattern_defs)

section \<open>The secret pattern\<close>

definition secret_names :: regex where
  "secret_names = Alt (ignore_case ''bearer'')
                (Alt (seq [ignore_case ''api'', opt (\<lambda>c. c = 95 \<or> c = 45), ignore_case ''key''])
                (Alt (ignore_case ''secret'')
                (Alt (ignore_case ''token'') (ignore_case ''password''))))"

definition token_char :: "nat \<Rightarrow> bool" where
  "token_char c \<longleftrightarrow> is_alnum c \<or> c = 45 \<or> c = 95"

definition quote :: "nat \<Rightarrow> bool" where
  "quote c \<longleftrightarrow> c = 34 \<or> c = 39"

definition assignment :: "nat \<Rightarrow> bool" where
  "assignment c \<longleftrightarrow> is_js_space c \<or> c = 58 \<or> c = 61"

definition secret_value :: regex where
  "secret_value = Seq (Chars token_char 16 None) (opt quote)"

definition secret_tail :: regex where
  "secret_tail = Seq (Chars assignment 1 None) (Seq (opt quote) secret_value)"

lemma secretRegex_split: "secretRegex = Seq (Group secret_names) secret_tail"
proof -
  have "token_char = (\<lambda>c. is_alnum c \<or> c = 45 \<or> c = 95)" by (rule ext) (simp add: token_char_def)
  moreover have "quote = (\<lambda>c. c = 34 \<or> c = 39)" by (rule ext) (simp add: quote_def)
  moreover have "assignment = (\<lambda>c. is_js_space c \<or> c = 58 \<or> c = 61)"
    by (rule ext) (simp add: assignment_def)
  ultimately show ?thesis
    by (simp add: secretRegex_def secret_names_def secret_tail_def secret_value_def)
qed

lemmas secret_defs = secretRegex_split secret_names_def secret_tail_def secret_value_def
  token_char_def quote_def assignment_def ignore_case_def
  one_def opt_def is_alpha_def is_alnum_def is_digit_def is_js_space_def

lemma names_facts:
  "min_len secret_names = 5" "max_len secret_names = Some 8"
  "allowed secret_names c \<Longrightarrow> \<not> is_digit c \<and> c \<noteq> 64 \<and> c \<noteq> 46"
  "lasts secret_names c \<Longrightarrow> is_alpha c"
  by (auto simp add: secret_defs)

lemma secret_facts:
  "boundary_free secretRegex" "min_len secretRegex = 22"
  "\<not> allowed secretRegex 91" "\<not> allowed secretRegex 93"
  "requires secretRegex assignment"
  "\<not> lasts secretRegex 58" "\<not> lasts secretRegex 32" "\<not> firsts secretRegex 32"
  "group_free secret_tail"
  by (simp_all add: secret_defs)

abbreviation secret_replacement :: "jsstring option \<Rightarrow> jsstring" where
  "secret_replacement \<equiv> (\<lambda>cap. (case cap of None \<Rightarrow> [] | Some w \<Rightarrow> w) @ js '': [REDACTED_SECRET]'')"

lemma secret_kept:
  assumes m: "match_at secretRegex prev s = Some (n, cap)"
  shows "\<exists>k. k \<le> n \<and> k \<le> 8 \<and> 0 < k \<and> secret_replacement cap = take k s @ js '': [REDACTED_SECRET]''
          \<and> consumes secret_names prev (take k s) (drop k s)"
proof -
  from match_at_capture[OF secret_facts(9) m[unfolded secretRegex_split]] obtain u where
    u: "cap = Some u" "u = take (length u) s" "length u \<le> n"
       "consumes secret_names prev u (drop (length u) s)" by blast
  have "length u \<le> 8" using consumes_max_len[OF u(4) names_facts(2)] .
  moreover have "0 < length u" using consumes_min_len[OF u(4)] names_facts(1) by auto
  moreover have "secret_replacement cap = take (length u) s @ js '': [REDACTED_SECRET]''"
    using u(1,2) by simp
  moreover have "consumes secret_names prev (take (length u) s) (drop (length u) s)"
    using u(2,4) by simp
  ultimately show ?thesis using u(3) by blast
qed

lemma secret_replacement_shape:
  "match_at secretRegex prev s = Some (n, cap) \<Longrightarrow>
     0 < n \<and> (\<exists>k\<le>n. k < min_len secretRegex
                  \<and> secret_replacement cap = take k s @ js '': [REDACTED_SECRET]'')"
proof -
  assume m: "match_at secretRegex prev s = Some (n, cap)"
  from secret_kept[OF m] obtain k where
    k: "k \<le> n" "k \<le> 8" "secret_replacement cap = take k s @ js '': [REDACTED_SECRET]''" by blast
  have "0 < n" using match_at_positive[OF _ m] secret_facts(2) by simp
  moreover have "k < min_len secretRegex" using k(2) secret_facts(2) by simp
  ultimately show ?thesis using k(1,3) by blast
qed

lemma secret_placeholder:
  "js '': [REDACTED_SECRET]'' = [] @ 58 # (32 # 91 # js ''REDACTED_SECRET'' @ [93])"
  "js '': [REDACTED_SECRET]'' = [58] @ (32 # 91 # js ''REDACTED_SECRET'') @ [93]"
  "js '': [REDACTED_SECRET]'' = [58, 32] @ 91 # (js ''REDACTED_SECRET'' @ [93])"
  "js '': [REDACTED_SECRET]'' = [58, 32] @ (91 # js ''REDACTED_SECRET'') @ [93]"
  by simp_all

text \<open>Replacing the secrets in a text free of \<open>q\<close> gives a text free of \<open>q\<close>.\<close>

lemma stays_free_secret:
  assumes q: "0 < min_len q" "\<not> allowed q 58" "\<not> allowed q 93" "requires q X"
    and X: "\<forall>c\<in>set (32 # 91 # js ''REDACTED_SECRET''). \<not> X c"
    and s: "free_of q s"
  shows "free_of q (replace_all secretRegex secret_replacement s)"
  unfolding replace_all_def
proof (rule stays_free[where P="js '': [REDACTED_SECRET]''"])
  show "\<And>prev s n cap. match_at secretRegex prev s = Some (n, cap) \<Longrightarrow>
          0 < n \<and> (\<exists>k\<le>n. secret_replacement cap = take k s @ js '': [REDACTED_SECRET]'')"
    using secret_replacement_shape by blast
  show "0 < min_len q" by (rule q(1))
  show "free_of q s" by (rule s)
next
  fix a b w y :: jsstring
  assume w: "consumes q None w []" and e: "a @ js '': [REDACTED_SECRET]'' @ b = w @ y"
  show "length w \<le> length a"
  proof (rule stops_before[where pre="[]" and z=58 and q=q, OF q(2) _ w])
    show "\<forall>c\<in>set []. \<not> lasts q c" by simp
    show "a @ ([] @ 58 # (32 # 91 # js ''REDACTED_SECRET'' @ [93])) @ b = w @ y"
      using e unfolding secret_placeholder(1)[symmetric] .
  qed
next
  fix i :: nat and b w y :: jsstring
  assume i: "0 < i" "i < length (js '': [REDACTED_SECRET]'')" and w: "consumes q None w []"
    and e: "drop i (js '': [REDACTED_SECRET]'') @ b = w @ y"
  show False
  proof (rule starts_not_inside[where pre="[58]" and mid="32 # 91 # js ''REDACTED_SECRET''"
        and z=93 and q=q and X=X, OF q(4) q(3) X _ _ i(1) _ w])
    show "\<forall>c\<in>set (tl [58]). \<not> firsts q c" by simp
    show "[58] \<noteq> ([] :: jsstring)" by simp
    show "i < length ([58] @ (32 # 91 # js ''REDACTED_SECRET'') @ [93])"
      using i(2) unfolding secret_placeholder(2)[symmetric] .
    show "drop i ([58] @ (32 # 91 # js ''REDACTED_SECRET'') @ [93]) @ b = w @ y"
      using e unfolding secret_placeholder(2)[symmetric] .
  qed
qed

text \<open>Replacing the secrets leaves a text free of secrets.\<close>

lemma becomes_free_secret:
  "free_of secretRegex (replace_all secretRegex secret_replacement s)"
  unfolding replace_all_def
proof (rule becomes_free[where P="js '': [REDACTED_SECRET]''"])
  show "boundary_free secretRegex" by (rule secret_facts(1))
  show "\<And>prev s n cap. match_at secretRegex prev s = Some (n, cap) \<Longrightarrow>
          0 < n \<and> (\<exists>k\<le>n. k < min_len secretRegex
                       \<and> secret_replacement cap = take k s @ js '': [REDACTED_SECRET]'')"
    by (rule secret_replacement_shape)
next
  fix a b w y :: jsstring
  assume w: "consumes secretRegex None w []" and e: "a @ js '': [REDACTED_SECRET]'' @ b = w @ y"
  show "length w \<le> length a"
  proof (rule stops_before[where pre="[58, 32]" and z=91 and q=secretRegex, OF secret_facts(3) _ w])
    show "\<forall>c\<in>set [58, 32]. \<not> lasts secretRegex c" using secret_facts(6,7) by simp
    show "a @ ([58, 32] @ 91 # (js ''REDACTED_SECRET'' @ [93])) @ b = w @ y"
      using e unfolding secret_placeholder(3)[symmetric] .
  qed
next
  fix i :: nat and b w y :: jsstring
  assume i: "0 < i" "i < length (js '': [REDACTED_SECRET]'')" and w: "consumes secretRegex None w []"
    and e: "drop i (js '': [REDACTED_SECRET]'') @ b = w @ y"
  show False
  proof (rule starts_not_inside[where pre="[58, 32]" and mid="91 # js ''REDACTED_SECRET''"
        and z=93 and q=secretRegex and X=assignment, OF secret_facts(5) secret_facts(4) _ _ _ i(1) _ w])
    show "\<forall>c\<in>set (91 # js ''REDACTED_SECRET''). \<not> assignment c"
      by (simp add: assignment_def is_js_space_def)
    show "\<forall>c\<in>set (tl [58, 32]). \<not> firsts secretRegex c" using secret_facts(8) by simp
    show "[58, 32] \<noteq> ([] :: jsstring)" by simp
    show "i < length ([58, 32] @ (91 # js ''REDACTED_SECRET'') @ [93])"
      using i(2) unfolding secret_placeholder(4)[symmetric] .
    show "drop i ([58, 32] @ (91 # js ''REDACTED_SECRET'') @ [93]) @ b = w @ y"
      using e unfolding secret_placeholder(4)[symmetric] .
  qed
qed

section \<open>Patterns with word boundaries\<close>

text \<open>
  Whether a word matches depends on what stands around it only through whether the code
  unit before it and the code unit after it are word characters.
\<close>

lemma word_next_append: "v \<noteq> [] \<Longrightarrow> word_next (v @ rs) = word_next v"
  by (cases v) (simp_all add: word_next_def)

lemma word_before_last: "u \<noteq> [] \<Longrightarrow> last_before p u = Some (last u)"
  by (simp add: last_before_def)

lemma consumes_context:
  "consumes r p w rs \<Longrightarrow> word_before p = word_before p2 \<Longrightarrow> word_next rs = word_next q
     \<Longrightarrow> consumes r p2 w q"
proof (induction r arbitrary: p w rs p2 q)
  case (Chars cls lo hi p w rs p2 q)
  then show ?case by simp
next
  case (Boundary p w rs p2 q)
  then show ?case by simp
next
  case (Seq a b p w rs p2 q)
  from Seq.prems(1) obtain u v where uv: "w = u @ v" "consumes a p u (v @ rs)"
      "consumes b (last_before p u) v rs"
    by (rule consumes_SeqE)
  have n: "word_next (v @ rs) = word_next (v @ q)"
    using Seq.prems(3) by (cases "v = []") (simp_all add: word_next_append)
  have l: "word_before (last_before p u) = word_before (last_before p2 u)"
    using Seq.prems(2) by (cases "u = []") (simp_all add: word_before_last)
  have "consumes a p2 u (v @ q)" using Seq.IH(1)[OF uv(2) Seq.prems(2) n] .
  moreover have "consumes b (last_before p2 u) v q" using Seq.IH(2)[OF uv(3) l Seq.prems(3)] .
  ultimately show ?case unfolding uv(1) by (rule consumes_SeqI)
next
  case (Alt a b p w rs p2 q)
  from Alt.prems(1) have "consumes a p w rs \<or> consumes b p w rs" by simp
  then show ?case
  proof
    assume "consumes a p w rs"
    from Alt.IH(1)[OF this Alt.prems(2,3)] show ?thesis by simp
  next
    assume "consumes b p w rs"
    from Alt.IH(2)[OF this Alt.prems(2,3)] show ?thesis by simp
  qed
next
  case (Group r p w rs p2 q)
  from Group.prems(1) have "consumes r p w rs" by simp
  from Group.IH[OF this Group.prems(2,3)] show ?case by simp
qed

text \<open>Patterns that begin, or end, with a word boundary.\<close>

fun starts_boundary :: "regex \<Rightarrow> bool" where
  "starts_boundary (Chars cls lo hi) = False"
| "starts_boundary Boundary = True"
| "starts_boundary (Seq a b) = starts_boundary a"
| "starts_boundary (Alt a b) = (starts_boundary a \<and> starts_boundary b)"
| "starts_boundary (Group r) = starts_boundary r"

lemma consumes_starts_boundary:
  "starts_boundary r \<Longrightarrow> consumes r p w rs \<Longrightarrow> word_before p \<noteq> word_next (w @ rs)"
proof (induction r arbitrary: p w rs)
  case (Chars cls lo hi p w rs)
  then show ?case by simp
next
  case (Boundary p w rs)
  then show ?case by simp
next
  case (Seq a b p w rs)
  from Seq.prems(2) obtain u v where uv: "w = u @ v" "consumes a p u (v @ rs)"
    by (rule consumes_SeqE)
  from Seq.prems(1) have "starts_boundary a" by simp
  from Seq.IH(1)[OF this uv(2)] show ?case using uv(1) by simp
next
  case (Alt a b p w rs)
  from Alt.prems(2) have "consumes a p w rs \<or> consumes b p w rs" by simp
  then show ?case
  proof
    assume c: "consumes a p w rs"
    from Alt.prems(1) have "starts_boundary a" by simp
    from Alt.IH(1)[OF this c] show ?thesis .
  next
    assume c: "consumes b p w rs"
    from Alt.prems(1) have "starts_boundary b" by simp
    from Alt.IH(2)[OF this c] show ?thesis .
  qed
next
  case (Group r p w rs)
  from Group.prems have "starts_boundary r" "consumes r p w rs" by simp_all
  from Group.IH[OF this] show ?case .
qed

fun ends_boundary :: "regex \<Rightarrow> bool" where
  "ends_boundary (Chars cls lo hi) = False"
| "ends_boundary Boundary = True"
| "ends_boundary (Seq a b) = ends_boundary b"
| "ends_boundary (Alt a b) = (ends_boundary a \<and> ends_boundary b)"
| "ends_boundary (Group r) = ends_boundary r"

lemma consumes_ends_boundary:
  "ends_boundary r \<Longrightarrow> consumes r p w rs \<Longrightarrow> word_before (last_before p w) \<noteq> word_next rs"
proof (induction r arbitrary: p w rs)
  case (Chars cls lo hi p w rs)
  then show ?case by simp
next
  case (Boundary p w rs)
  then show ?case by simp
next
  case (Seq a b p w rs)
  from Seq.prems(2) obtain u v where uv: "w = u @ v" "consumes b (last_before p u) v rs"
    by (rule consumes_SeqE)
  from Seq.prems(1) have "ends_boundary b" by simp
  from Seq.IH(2)[OF this uv(2)] show ?case using uv(1) by simp
next
  case (Alt a b p w rs)
  from Alt.prems(2) have "consumes a p w rs \<or> consumes b p w rs" by simp
  then show ?case
  proof
    assume c: "consumes a p w rs"
    from Alt.prems(1) have "ends_boundary a" by simp
    from Alt.IH(1)[OF this c] show ?thesis .
  next
    assume c: "consumes b p w rs"
    from Alt.prems(1) have "ends_boundary b" by simp
    from Alt.IH(2)[OF this c] show ?thesis .
  qed
next
  case (Group r p w rs)
  from Group.prems have "ends_boundary r" "consumes r p w rs" by simp_all
  from Group.IH[OF this] show ?case .
qed

text \<open>A text, with the code unit before it, in which the pattern matches nowhere.\<close>

definition clear_of :: "regex \<Rightarrow> nat option \<Rightarrow> jsstring \<Rightarrow> bool" where
  "clear_of q prev s \<longleftrightarrow> (\<forall>u w v. s = u @ w @ v \<longrightarrow> \<not> consumes q (last_before prev u) w v)"

lemma clear_of_part: "clear_of q prev s \<Longrightarrow> s = u @ w @ v \<Longrightarrow> \<not> consumes q (last_before prev u) w v"
  unfolding clear_of_def by blast

lemma clear_of_drop: "clear_of q prev s \<Longrightarrow> clear_of q (last_before prev (take n s)) (drop n s)"
  unfolding clear_of_def
proof (intro allI impI)
  fix u w v
  assume a: "\<forall>u w v. s = u @ w @ v \<longrightarrow> \<not> consumes q (last_before prev u) w v"
    and "drop n s = u @ w @ v"
  then have "s = (take n s @ u) @ w @ v" by (metis append.assoc append_take_drop_id)
  with a have "\<not> consumes q (last_before prev (take n s @ u)) w v" by blast
  then show "\<not> consumes q (last_before (last_before prev (take n s)) u) w v" by simp
qed

lemma clear_of_Cons: "clear_of q prev (c # cs) \<Longrightarrow> clear_of q (Some c) cs"
  using clear_of_drop[of q prev "c # cs" 1] by (simp add: last_before_def)

lemma replace_all_clear: "clear_of q None s \<Longrightarrow> replace_all q f s = s"
  unfolding replace_all_def
proof (rule replace_from_id)
  fix u v
  assume c: "clear_of q None s" and s: "s = u @ v"
  have "\<not> consumes q (last_before None u) w s'" if "v = w @ s'" for w s'
    using clear_of_part[OF c, of u w s'] s that by simp
  then show "match_at q (last_before None u) v = None" unfolding match_at_None by blast
qed

section \<open>No match is left behind: patterns with word boundaries\<close>

text \<open>
  A match in the text after the replacement, beginning before the current position, lies
  in the text before the replacement too, with the same kind of code unit after it.
\<close>

lemma match_enters:
  assumes R1: "\<And>prev s n cap. match_at r prev s = Some (n, cap) \<Longrightarrow>
                 0 < n \<and> (\<exists>k\<le>n. f cap = take k s @ P)"
    and P: "P \<noteq> []" "\<not> is_word (hd P)"
    and W2: "\<And>a b w y p rs. consumes q p w rs \<Longrightarrow> a @ P @ b = w @ y \<Longrightarrow> length w \<le> length a"
    and E: "\<And>prev s n cap k c. match_at r prev s = Some (n, cap) \<Longrightarrow> f cap = take k s @ P \<Longrightarrow>
               k \<le> n \<Longrightarrow> last_before prev (take k s) = Some c \<Longrightarrow> lasts q c \<Longrightarrow>
               \<not> word_next (drop k s)"
    and w: "consumes q p w y" "w \<noteq> []"
  shows "a @ replace_from r f 0 (last_before p0 a) s = w @ y
         \<Longrightarrow> \<exists>y'. a @ s = w @ y' \<and> word_next y' = word_next y"
proof (induction "length s" arbitrary: s a rule: less_induct)
  case less
  let ?prev = "last_before p0 a"
  show ?case
  proof (cases "match_at r ?prev s")
    case None
    show ?thesis
    proof (cases s)
      case Nil
      then show ?thesis using less.prems None by simp
    next
      case (Cons c cs)
      have "Some c = last_before p0 (a @ [c])" by (simp add: last_before_def)
      then have "(a @ [c]) @ replace_from r f 0 (last_before p0 (a @ [c])) cs = w @ y"
        using less.prems None Cons by simp
      moreover have "length cs < length s" using Cons by simp
      ultimately have "\<exists>y'. (a @ [c]) @ cs = w @ y' \<and> word_next y' = word_next y"
        by (rule less.hyps[rotated])
      then show ?thesis using Cons by simp
    qed
  next
    case (Some x)
    obtain n cap where x: "x = (n, cap)" by (cases x)
    note m = Some[unfolded x]
    from R1[OF m] obtain k where k: "0 < n" "k \<le> n" "f cap = take k s @ P" by blast
    define rest where "rest = replace_from r f 0 (last_before ?prev (take n s)) (drop n s)"
    have "replace_from r f 0 ?prev s = take k s @ P @ rest"
      using replace_from_hit[OF m k(1), of f] k(3) by (simp add: rest_def)
    then have o: "(a @ take k s) @ P @ rest = w @ y" using less.prems by simp
    from W2[OF w(1) o] have "length w \<le> length (a @ take k s)" .
    with o obtain y0 where y0: "a @ take k s = w @ y0" by (meson prefix_of_append)
    then have y: "y = y0 @ P @ rest" using o by simp
    have "a @ s = (a @ take k s) @ drop k s" by simp
    then have s: "a @ s = w @ y0 @ drop k s" unfolding y0 by simp
    show ?thesis
    proof (cases "y0 = []")
      case False
      then have "word_next (y0 @ drop k s) = word_next y" unfolding y by (simp add: word_next_append)
      then show ?thesis using s by blast
    next
      case True
      have "last_before ?prev (take k s) = last_before p0 (a @ take k s)" by simp
      also have "\<dots> = Some (last w)" unfolding y0 True using w(2) by (simp add: word_before_last)
      finally have l: "last_before ?prev (take k s) = Some (last w)" .
      have "lasts q (last w)" using w by (rule consumes_last)
      from E[OF m k(3) k(2) l this] have "\<not> word_next (drop k s)" .
      moreover have "\<not> word_next y" unfolding y True using P by (cases P) (simp_all add: word_next_def)
      ultimately have "word_next (y0 @ drop k s) = word_next y" using True by simp
      then show ?thesis using s by blast
    qed
  qed
qed

text \<open>
  \<open>I\<close> says what is known about the input that is still to be scanned; \<open>po\<close> is the code
  unit before the current position in the text after the replacement.
\<close>

lemma no_match_left:
  assumes R1: "\<And>prev s n cap. match_at r prev s = Some (n, cap) \<Longrightarrow>
                 0 < n \<and> (\<exists>k\<le>n. f cap = take k s @ P)"
    and Q1: "0 < min_len q"
    and P: "P \<noteq> []" "\<not> is_word (hd P)" "\<not> is_word (last P)"
    and W2: "\<And>a b w y p rs. consumes q p w rs \<Longrightarrow> a @ P @ b = w @ y \<Longrightarrow> length w \<le> length a"
    and W3: "\<And>i b w y p rs. 0 < i \<Longrightarrow> i < length P \<Longrightarrow> consumes q p w rs \<Longrightarrow>
                 drop i P @ b = w @ y \<Longrightarrow> False"
    and E: "\<And>prev s n cap k c. match_at r prev s = Some (n, cap) \<Longrightarrow> f cap = take k s @ P \<Longrightarrow>
               k \<le> n \<Longrightarrow> last_before prev (take k s) = Some c \<Longrightarrow> lasts q c \<Longrightarrow>
               \<not> word_next (drop k s)"
    and J: "\<And>prev s n cap c cs. match_at r prev s = Some (n, cap) \<Longrightarrow>
               word_before (last_before prev (take n s)) \<Longrightarrow> drop n s = c # cs \<Longrightarrow>
               firsts q c \<Longrightarrow> False"
    and I1: "\<And>prev c cs. I prev (c # cs) \<Longrightarrow> match_at r prev (c # cs) = None \<Longrightarrow>
                 I (Some c) cs \<and> (\<forall>w y. c # cs = w @ y \<longrightarrow> \<not> consumes q prev w y)"
    and I2: "\<And>prev s n cap k. I prev s \<Longrightarrow> match_at r prev s = Some (n, cap) \<Longrightarrow>
                 f cap = take k s @ P \<Longrightarrow> k \<le> n \<Longrightarrow>
                 I (last_before prev (take n s)) (drop n s)
                 \<and> (\<forall>j w y p rs. j < k \<longrightarrow> consumes q p w rs \<longrightarrow> drop j (take k s) \<noteq> w @ y)"
  shows "I prev s \<Longrightarrow> word_before prev = word_before po \<or> (\<forall>c cs. s = c # cs \<longrightarrow> \<not> firsts q c)
         \<Longrightarrow> replace_from r f 0 prev s = u @ w @ v \<Longrightarrow> consumes q (last_before po u) w v
         \<Longrightarrow> False"
proof (induction "length s" arbitrary: s prev po u rule: less_induct)
  case less
  note inv = less.prems(1) and ctx = less.prems(2) and out = less.prems(3) and w = less.prems(4)
  have ne: "w \<noteq> []" using Q1 w by (rule consumes_nonempty)
  show ?case
  proof (cases "match_at r prev s")
    case None
    show ?thesis
    proof (cases s)
      case Nil
      then show ?thesis using out None ne by simp
    next
      case (Cons c cs)
      have o: "c # replace_from r f 0 (Some c) cs = u @ w @ v"
        using out None Cons by simp
      from I1[OF inv[unfolded Cons] None[unfolded Cons]]
      have i: "I (Some c) cs" and nw: "\<And>w y. c # cs = w @ y \<Longrightarrow> \<not> consumes q prev w y" by auto
      show ?thesis
      proof (cases u)
        case Nil
        then have w': "consumes q po w v" using w by simp
        have "[] @ replace_from r f 0 (last_before prev []) s = w @ v" using out Nil by simp
        then have "\<exists>y'. [] @ s = w @ y' \<and> word_next y' = word_next v"
        proof (rule match_enters[where r=r and f=f and P=P and q=q and p=po and w=w and y=v
              and a="[]" and ?p0.0=prev and s=s, rotated -1])
          show "\<And>prev s n cap. match_at r prev s = Some (n, cap) \<Longrightarrow>
                  0 < n \<and> (\<exists>k\<le>n. f cap = take k s @ P)" by (rule R1)
          show "P \<noteq> []" by (rule P(1))
          show "\<not> is_word (hd P)" by (rule P(2))
          show "\<And>a b w y p rs. consumes q p w rs \<Longrightarrow> a @ P @ b = w @ y \<Longrightarrow> length w \<le> length a"
            by (rule W2)
          show "\<And>prev s n cap k c. match_at r prev s = Some (n, cap) \<Longrightarrow> f cap = take k s @ P \<Longrightarrow>
               k \<le> n \<Longrightarrow> last_before prev (take k s) = Some c \<Longrightarrow> lasts q c \<Longrightarrow>
               \<not> word_next (drop k s)" by (rule E)
          show "consumes q po w v" by (rule w')
          show "w \<noteq> []" by (rule ne)
        qed
        then obtain y' where y': "s = w @ y'" "word_next y' = word_next v" by auto
        have "hd w = c" using y'(1) Cons ne by (cases w) auto
        then have "firsts q c" using consumes_hd[OF w' ne] by simp
        then have wb: "word_before po = word_before prev" using ctx \<open>s = c # cs\<close> by auto
        have "consumes q prev w y'" using w' wb y'(2)[symmetric] by (rule consumes_context)
        moreover have "c # cs = w @ y'" using y'(1) \<open>s = c # cs\<close> by simp
        ultimately show ?thesis using nw by blast
      next
        case (Cons c' u')
        then have e: "replace_from r f 0 (Some c) cs = u' @ w @ v" "c' = c" using o by auto
        have l: "length cs < length s" using \<open>s = c # cs\<close> by simp
        have "last_before po u = last_before (Some c) u'"
          unfolding Cons e(2) by (simp add: last_before_def)
        then have w': "consumes q (last_before (Some c) u') w v" using w by simp
        have c: "word_before (Some c) = word_before (Some c) \<or> (\<forall>d ds. cs = d # ds \<longrightarrow> \<not> firsts q d)"
          by simp
        from less.hyps[OF l i c e(1) w'] show ?thesis .
      qed
    qed
  next
    case (Some x)
    obtain n cap where x: "x = (n, cap)" by (cases x)
    note m = Some[unfolded x]
    from R1[OF m] obtain k where k: "0 < n" "k \<le> n" "f cap = take k s @ P" by blast
    have le: "n \<le> length s" using match_at_Some[OF m] by simp
    define rest where "rest = replace_from r f 0 (last_before prev (take n s)) (drop n s)"
    have o: "take k s @ P @ rest = u @ w @ v"
      using replace_from_hit[OF m k(1), of f] k(3) out by (simp add: rest_def)
    from I2[OF inv m k(3) k(2)]
    have i: "I (last_before prev (take n s)) (drop n s)"
      and nk: "\<And>j w y p rs. j < k \<Longrightarrow> consumes q p w rs \<Longrightarrow> drop j (take k s) \<noteq> w @ y" by auto
    have lk: "length (take k s) = k" using k(2) le by simp
    consider "length u < k" | "k \<le> length u" "length u < k + length P" | "k + length P \<le> length u"
      by linarith
    then show ?thesis
    proof cases
      case 1
      have "drop (length u) (take k s @ P @ rest) = w @ v" using o by simp
      then have e: "drop (length u) (take k s) @ P @ rest = w @ v" using 1 lk by simp
      from W2[OF w e] have "length w \<le> length (drop (length u) (take k s))" .
      with e obtain y0 where "drop (length u) (take k s) = w @ y0"
        by (meson prefix_of_append)
      then show ?thesis using nk[OF 1 w] by blast
    next
      case 2
      have "drop (length u) (take k s @ P @ rest) = w @ v" using o by simp
      then have e: "drop (length u - k) P @ rest = w @ v" using 2 lk by simp
      show ?thesis
      proof (cases "length u = k")
        case True
        then have "[] @ P @ rest = w @ v" using e by simp
        from W2[OF w this] show ?thesis using ne by simp
      next
        case False
        then have "0 < length u - k" "length u - k < length P" using 2 by auto
        then show ?thesis using W3 w e by blast
      qed
    next
      case 3
      define u2 where "u2 = drop (k + length P) u"
      have "take (k + length P) (take k s @ P @ rest) = take (k + length P) (u @ w @ v)"
        using o by simp
      then have tu: "take k s @ P = take (k + length P) u" using 3 lk by simp
      have u: "u = (take k s @ P) @ u2" unfolding tu u2_def by simp
      have "drop (k + length P) (take k s @ P @ rest) = drop (k + length P) (u @ w @ v)"
        using o by simp
      then have r: "rest = u2 @ w @ v" using 3 lk by (simp add: u2_def)
      have l: "length (drop n s) < length s" using k(1) le by simp
      have "last_before po u = last_before (last_before po (take k s @ P)) u2"
        by (subst u) (simp only: last_before_append)
      also have "last_before po (take k s @ P) = Some (last P)"
        using P(1) by (simp add: last_before_def)
      finally have w': "consumes q (last_before (Some (last P)) u2) w v" using w by simp
      have c: "word_before (last_before prev (take n s)) = word_before (Some (last P))
          \<or> (\<forall>c cs. drop n s = c # cs \<longrightarrow> \<not> firsts q c)"
      proof (cases "word_before (last_before prev (take n s))")
        case True
        then have "\<forall>c cs. drop n s = c # cs \<longrightarrow> \<not> firsts q c" using J[OF m] by blast
        then show ?thesis ..
      next
        case False
        then show ?thesis using P(3) by (simp add: word_before_def)
      qed
      from less.hyps[OF l i c r[unfolded rest_def] w'] show ?thesis .
    qed
  qed
qed

section \<open>The address pattern\<close>

lemma digit_is_word: "is_digit c \<Longrightarrow> is_word c"
  by (simp add: is_word_def)

lemma ip_boundaries: "starts_boundary ipRegex" "ends_boundary ipRegex"
  by (simp_all add: ipRegex_def one_def)

lemma ip_match_context:
  assumes "consumes ipRegex p w rs"
  shows "w \<noteq> []" "\<not> word_before p" "\<not> word_next rs"
proof -
  show ne: "w \<noteq> []" using consumes_nonempty[OF _ assms] ip_facts(1) by simp
  have "is_digit (hd w)" using consumes_hd[OF assms ne] ip_facts(6) by simp
  then have "word_next (w @ rs)" using ne by (cases w) (simp_all add: word_next_def digit_is_word)
  then show "\<not> word_before p" using consumes_starts_boundary[OF ip_boundaries(1) assms] by simp
  have "is_digit (last w)" using consumes_last[OF assms ne] ip_facts(7) by simp
  then have "word_before (last_before p w)"
    using ne by (simp add: word_before_last word_before_def digit_is_word)
  then show "\<not> word_next rs" using consumes_ends_boundary[OF ip_boundaries(2) assms] by simp
qed

lemma ip_placeholder: "js ''[REDACTED_IP]'' = 91 # js ''REDACTED_IP'' @ [93]"
  by simp

lemma ip_becomes_clear:
  "clear_of ipRegex None (replace_all ipRegex (\<lambda>cap. js ''[REDACTED_IP]'') s)"
  unfolding clear_of_def replace_all_def
proof (intro allI impI notI)
  fix u w v
  let ?P = "91 # js ''REDACTED_IP'' @ [93]"
  assume "replace_from ipRegex (\<lambda>cap. js ''[REDACTED_IP]'') 0 None s = u @ w @ v"
  then have out: "replace_from ipRegex (\<lambda>cap. ?P) 0 None s = u @ w @ v" by simp
  assume w: "consumes ipRegex (last_before None u) w v"
  have mid: "\<forall>c\<in>set (js ''REDACTED_IP''). \<not> is_digit c" by (simp add: is_digit_def)
  have k0: "take k s = []" if "?P = take k s @ ?P" for k and s :: jsstring
    using that by simp
  show False
  proof (rule no_match_left[where r=ipRegex and q=ipRegex and f="\<lambda>cap. ?P" and P="?P"
        and I="\<lambda>p s. True" and prev=None and po=None and s=s and u=u and w=w and v=v])
    show "\<And>prev s n cap. match_at ipRegex prev s = Some (n, cap) \<Longrightarrow>
            0 < n \<and> (\<exists>k\<le>n. ?P = take k s @ ?P)"
      using constant_replacement[of ipRegex] ip_facts(1) by fastforce
    show "0 < min_len ipRegex" using ip_facts(1) by simp
    show "?P \<noteq> []" by simp
    show "\<not> is_word (hd ?P)" by (simp add: is_word_def is_digit_def)
    show "\<not> is_word (last ?P)" by (simp add: is_word_def is_digit_def)
    show "\<And>a b w y p rs. consumes ipRegex p w rs \<Longrightarrow> a @ ?P @ b = w @ y \<Longrightarrow> length w \<le> length a"
      using bracket_stops[OF ip_facts(2)] by blast
    show "\<And>i b w y p rs. 0 < i \<Longrightarrow> i < length ?P \<Longrightarrow> consumes ipRegex p w rs \<Longrightarrow>
            drop i ?P @ b = w @ y \<Longrightarrow> False"
      using bracket_inside[OF ip_facts(5) ip_facts(3) mid] by blast
    show True ..
    show "word_before None = word_before None \<or> (\<forall>c cs. s = c # cs \<longrightarrow> \<not> firsts ipRegex c)"
      by simp
    show "replace_from ipRegex (\<lambda>cap. ?P) 0 None s = u @ w @ v" by (rule out)
    show "consumes ipRegex (last_before None u) w v" by (rule w)
  next
    fix prev :: "nat option" and s :: jsstring and n k c :: nat and cap :: "jsstring option"
    assume m: "match_at ipRegex prev s = Some (n, cap)" and p: "?P = take k s @ ?P"
      and l: "last_before prev (take k s) = Some c" and c: "lasts ipRegex c"
    have "prev = Some c" using l k0[OF p] by simp
    moreover have "is_word c" using c ip_facts(7) digit_is_word by simp
    ultimately have "word_before prev" by (simp add: word_before_def)
    then show "\<not> word_next (drop k s)"
      using ip_match_context(2)[of prev "take n s" "drop n s"] match_at_Some[OF m] by simp
  next
    fix prev :: "nat option" and s cs :: jsstring and n c :: nat and cap :: "jsstring option"
    assume m: "match_at ipRegex prev s = Some (n, cap)" and d: "drop n s = c # cs"
      and c: "firsts ipRegex c"
    have "is_word c" using c ip_facts(6) digit_is_word by simp
    then have "word_next (drop n s)" unfolding d by (simp add: word_next_def)
    then show False
      using ip_match_context(3)[of prev "take n s" "drop n s"] match_at_Some[OF m] by simp
  next
    fix prev :: "nat option" and c :: nat and cs :: jsstring
    assume "match_at ipRegex prev (c # cs) = None"
    then show "True \<and> (\<forall>w y. c # cs = w @ y \<longrightarrow> \<not> consumes ipRegex prev w y)"
      unfolding match_at_None by blast
  next
    fix prev :: "nat option" and s :: jsstring and n k :: nat and cap :: "jsstring option"
    assume p: "?P = take k s @ ?P"
    have "drop j (take k s) \<noteq> w @ y" if "consumes ipRegex p w rs" for j w y p rs
      using ip_match_context(1)[OF that] k0[OF p] by auto
    then show "True \<and> (\<forall>j w y p rs. j < k \<longrightarrow> consumes ipRegex p w rs
        \<longrightarrow> drop j (take k s) \<noteq> w @ y)" by blast
  qed
qed

section \<open>Where a secret ends\<close>

text \<open>
  The engine's match is the first of the paths: the value of a secret takes every code
  unit that it can, and a quote after it if there is one. So at the end of a secret
  stands a quote, or the code unit after it cannot belong to a value.
\<close>

lemma hd_concat: "concat xss \<noteq> [] \<Longrightarrow> \<exists>xs\<in>set xss. xs \<noteq> [] \<and> hd (concat xss) = hd xs"
proof (induction xss)
  case Nil
  then show ?case by simp
next
  case (Cons xs xss)
  show ?case
  proof (cases "xs = []")
    case True
    then show ?thesis using Cons by simp
  next
    case False
    then show ?thesis by simp
  qed
qed

lemma hd_paths_Seq:
  assumes b: "\<And>st'. paths b st' \<noteq> [] \<Longrightarrow> Q (hd (paths b st'))"
    and ne: "paths (Seq a b) st \<noteq> []"
  shows "Q (hd (paths (Seq a b) st))"
proof -
  from ne have "concat (map (paths b) (paths a st)) \<noteq> []" by simp
  from hd_concat[OF this] obtain xs where
    xs: "xs \<in> set (map (paths b) (paths a st))" "xs \<noteq> []"
        "hd (concat (map (paths b) (paths a st))) = hd xs" by blast
  from xs(1) obtain st' where "xs = paths b st'" by auto
  then show ?thesis using b xs(2,3) by simp
qed

definition most :: "(nat \<Rightarrow> bool) \<Rightarrow> nat option \<Rightarrow> jsstring \<Rightarrow> nat" where
  "most cls hi s = (case hi of None \<Rightarrow> length (takeWhile cls s)
                    | Some h \<Rightarrow> min h (length (takeWhile cls s)))"

lemma paths_Chars_Nil: "most cls hi s < lo \<Longrightarrow> paths (Chars cls lo hi) (p, s, c) = []"
  by (simp add: most_def Let_def)

lemma paths_Chars_hd:
  assumes "lo \<le> most cls hi s"
  shows "\<exists>rest. paths (Chars cls lo hi) (p, s, c)
           = (last_before p (take (most cls hi s) s), drop (most cls hi s) s, c) # rest"
proof -
  have "rev [lo ..< Suc (most cls hi s)] = most cls hi s # rev [lo ..< most cls hi s]"
    using assms by simp
  then show ?thesis by (simp add: most_def Let_def)
qed

definition settled :: "mstate \<Rightarrow> bool" where
  "settled st = (case st of (p, s, c) \<Rightarrow>
     word_before p \<longrightarrow> (case s of [] \<Rightarrow> True | d # ds \<Rightarrow> \<not> token_char d))"

lemma quote_not_word: "quote c \<Longrightarrow> \<not> is_word c"
  by (auto simp: quote_def is_word_def is_digit_def)

lemma secret_value_settled:
  assumes ne: "paths secret_value st \<noteq> []"
  shows "settled (hd (paths secret_value st))"
proof -
  obtain p s c where st: "st = (p, s, c)" by (cases st)
  define n where "n = most token_char None s"
  define p1 where "p1 = last_before p (take n s)"
  define s1 where "s1 = drop n s"
  define m where "m = most quote (Some 1) s1"
  have n: "16 \<le> n"
  proof (rule ccontr)
    assume "\<not> 16 \<le> n"
    then have "paths (Chars token_char 16 None) (p, s, c) = []"
      unfolding n_def by (intro paths_Chars_Nil) simp
    then show False using ne st by (simp add: secret_value_def)
  qed
  then obtain rest where
    r: "paths (Chars token_char 16 None) (p, s, c) = (p1, s1, c) # rest"
    unfolding n_def p1_def s1_def using paths_Chars_hd[of 16 token_char None s p c] by blast
  obtain rest' where
    r': "paths (opt quote) (p1, s1, c) = (last_before p1 (take m s1), drop m s1, c) # rest'"
    unfolding m_def opt_def using paths_Chars_hd[of 0 quote "Some 1" s1 p1 c] by blast
  have h: "hd (paths secret_value st) = (last_before p1 (take m s1), drop m s1, c)"
    unfolding st secret_value_def using r r' by simp
  have s1: "s1 = dropWhile token_char s"
    unfolding s1_def n_def most_def by (simp add: dropWhile_eq_drop)
  have m1: "m \<le> 1" unfolding m_def most_def by simp
  show ?thesis
  proof (cases "m = 0")
    case True
    have "\<not> token_char d" if "s1 = d # ds" for d ds
    proof -
      have "dropWhile token_char s \<noteq> []" using that s1 by simp
      from hd_dropWhile[OF this] show ?thesis using that s1 by simp
    qed
    then show ?thesis unfolding h settled_def using True by (auto split: list.splits)
  next
    case False
    then have m: "m = 1" using m1 by simp
    then have "takeWhile quote s1 \<noteq> []" unfolding m_def most_def by auto
    then obtain d ds where d: "s1 = d # ds" "quote d"
      by (cases s1) (auto split: if_splits)
    have "last_before p1 (take m s1) = Some d" using m d(1) by (simp add: last_before_def)
    then show ?thesis unfolding h settled_def using quote_not_word[OF d(2)]
      by (simp add: word_before_def)
  qed
qed

lemma secret_settled:
  assumes "paths secretRegex st \<noteq> []"
  shows "settled (hd (paths secretRegex st))"
proof -
  have 1: "settled (hd (paths (Seq (opt quote) secret_value) st'))"
    if "paths (Seq (opt quote) secret_value) st' \<noteq> []" for st'
    using secret_value_settled that by (rule hd_paths_Seq[where Q=settled])
  have 2: "settled (hd (paths secret_tail st'))" if "paths secret_tail st' \<noteq> []" for st'
    using 1 that unfolding secret_tail_def by (rule hd_paths_Seq[where Q=settled])
  show ?thesis
    using 2 assms unfolding secretRegex_split by (rule hd_paths_Seq[where Q=settled])
qed

lemma secret_end:
  assumes m: "match_at secretRegex prev s = Some (n, cap)"
    and w: "word_before (last_before prev (take n s))"
    and d: "drop n s = c # cs"
  shows "\<not> token_char c"
proof -
  from m obtain p' s' rest where
    p: "paths secretRegex (prev, s, None) = (p', s', cap) # rest" "n = length s - length s'"
    by (auto simp: match_at_def split: list.splits)
  then have "(p', s', cap) \<in> set (paths secretRegex (prev, s, None))" by simp
  from paths_sound[OF this] obtain x where x: "s = x @ s'" "p' = last_before prev x" by blast
  have "take n s = x" "drop n s = s'" using x(1) p(2) by simp_all
  moreover have "settled (p', s', cap)" using secret_settled[of "(prev, s, None)"] p(1) by simp
  ultimately show ?thesis using w d x(2) by (auto simp: settled_def)
qed

section \<open>Addresses after the secrets are replaced\<close>

lemma kept_length:
  "take k s @ P = take j s @ P \<Longrightarrow> k \<le> length s \<Longrightarrow> j \<le> length s \<Longrightarrow> k = j"
proof -
  assume "take k s @ P = take j s @ P" and k: "k \<le> length s" and j: "j \<le> length s"
  then have "length (take k s) = length (take j s)" by simp
  then show "k = j" using k j by simp
qed

lemma secret_kept_at:
  assumes m: "match_at secretRegex prev s = Some (n, cap)"
    and f: "secret_replacement cap = take k s @ js '': [REDACTED_SECRET]''"
    and k: "k \<le> n"
  shows "0 < k" "consumes secret_names prev (take k s) (drop k s)"
proof -
  from secret_kept[OF m] obtain j where
    j: "j \<le> n" "0 < j" "secret_replacement cap = take j s @ js '': [REDACTED_SECRET]''"
       "consumes secret_names prev (take j s) (drop j s)" by blast
  have le: "n \<le> length s" using match_at_Some[OF m] by simp
  have e: "take k s @ js '': [REDACTED_SECRET]'' = take j s @ js '': [REDACTED_SECRET]''"
    using f j(3) by simp
  have "k \<le> length s" "j \<le> length s" using k j(1) le by simp_all
  from kept_length[OF e this] have "k = j" .
  then show "0 < k" "consumes secret_names prev (take k s) (drop k s)" using j(2,4) by simp_all
qed

lemma ip_stays_clear:
  assumes s: "clear_of ipRegex None s"
  shows "clear_of ipRegex None (replace_all secretRegex secret_replacement s)"
  unfolding clear_of_def replace_all_def
proof (intro allI impI notI)
  fix u w v
  let ?P = "js '': [REDACTED_SECRET]''"
  assume out: "replace_from secretRegex secret_replacement 0 None s = u @ w @ v"
    and w: "consumes ipRegex (last_before None u) w v"
  show False
  proof (rule no_match_left[where r=secretRegex and q=ipRegex and f=secret_replacement and P="?P"
        and I="clear_of ipRegex" and prev=None and po=None and s=s and u=u and w=w and v=v])
    show "\<And>prev s n cap. match_at secretRegex prev s = Some (n, cap) \<Longrightarrow>
            0 < n \<and> (\<exists>k\<le>n. secret_replacement cap = take k s @ ?P)"
      using secret_replacement_shape by blast
    show "0 < min_len ipRegex" using ip_facts(1) by simp
    show "?P \<noteq> []" by simp
    show "\<not> is_word (hd ?P)" by (simp add: is_word_def is_digit_def)
    show "\<not> is_word (last ?P)" by (simp add: is_word_def is_digit_def)
    show "clear_of ipRegex None s" by (rule s)
    show "word_before None = word_before None \<or> (\<forall>c cs. s = c # cs \<longrightarrow> \<not> firsts ipRegex c)"
      by simp
    show "replace_from secretRegex secret_replacement 0 None s = u @ w @ v" by (rule out)
    show "consumes ipRegex (last_before None u) w v" by (rule w)
  next
    fix a b w y :: jsstring and p rs
    assume w: "consumes ipRegex p w rs" and e: "a @ ?P @ b = w @ y"
    show "length w \<le> length a"
    proof (rule stops_before[where pre="[]" and z=58 and q=ipRegex, OF ip_facts(4) _ w])
      show "\<forall>c\<in>set []. \<not> lasts ipRegex c" by simp
      show "a @ ([] @ 58 # (32 # 91 # js ''REDACTED_SECRET'' @ [93])) @ b = w @ y"
        using e unfolding secret_placeholder(1)[symmetric] .
    qed
  next
    fix i :: nat and b w y :: jsstring and p rs
    assume i: "0 < i" "i < length ?P" and w: "consumes ipRegex p w rs"
      and e: "drop i ?P @ b = w @ y"
    show False
    proof (rule starts_not_inside[where pre="[58]" and mid="32 # 91 # js ''REDACTED_SECRET''"
          and z=93 and q=ipRegex and X=is_digit, OF ip_facts(5) ip_facts(3) _ _ _ i(1) _ w])
      show "\<forall>c\<in>set (32 # 91 # js ''REDACTED_SECRET''). \<not> is_digit c" by (simp add: is_digit_def)
      show "\<forall>c\<in>set (tl [58]). \<not> firsts ipRegex c" by simp
      show "[58] \<noteq> ([] :: jsstring)" by simp
      show "i < length ([58] @ (32 # 91 # js ''REDACTED_SECRET'') @ [93])"
        using i(2) unfolding secret_placeholder(2)[symmetric] .
      show "drop i ([58] @ (32 # 91 # js ''REDACTED_SECRET'') @ [93]) @ b = w @ y"
        using e unfolding secret_placeholder(2)[symmetric] .
    qed
  next
    fix prev :: "nat option" and s :: jsstring and n k c :: nat and cap :: "jsstring option"
    assume m: "match_at secretRegex prev s = Some (n, cap)"
      and f: "secret_replacement cap = take k s @ ?P" and k: "k \<le> n"
      and l: "last_before prev (take k s) = Some c" and c: "lasts ipRegex c"
    note kp = secret_kept_at[OF m f k]
    have ne: "take k s \<noteq> []" using consumes_nonempty[OF _ kp(2)] names_facts(1) by simp
    then have "c = last (take k s)" using l by (simp add: word_before_last)
    then have "is_alpha c" using consumes_last[OF kp(2) ne] names_facts(4) by simp
    moreover have "is_digit c" using c ip_facts(7) by simp
    ultimately show "\<not> word_next (drop k s)" by (simp add: is_alpha_def is_digit_def)
  next
    fix prev :: "nat option" and s cs :: jsstring and n c :: nat and cap :: "jsstring option"
    assume m: "match_at secretRegex prev s = Some (n, cap)"
      and b: "word_before (last_before prev (take n s))" and d: "drop n s = c # cs"
      and c: "firsts ipRegex c"
    have "\<not> token_char c" using m b d by (rule secret_end)
    moreover have "is_digit c" using c ip_facts(6) by simp
    ultimately show False by (simp add: token_char_def is_alnum_def)
  next
    fix prev :: "nat option" and c :: nat and cs :: jsstring
    assume i: "clear_of ipRegex prev (c # cs)"
    have "\<not> consumes ipRegex prev w y" if "c # cs = w @ y" for w y
      using clear_of_part[OF i, of "[]" w y] that by simp
    then show "clear_of ipRegex (Some c) cs
        \<and> (\<forall>w y. c # cs = w @ y \<longrightarrow> \<not> consumes ipRegex prev w y)"
      using clear_of_Cons[OF i] by blast
  next
    fix prev :: "nat option" and s :: jsstring and n k :: nat and cap :: "jsstring option"
    assume i: "clear_of ipRegex prev s" and m: "match_at secretRegex prev s = Some (n, cap)"
      and f: "secret_replacement cap = take k s @ ?P" and k: "k \<le> n"
    note kp = secret_kept_at[OF m f k]
    have "drop j (take k s) \<noteq> w @ y" if "consumes ipRegex p w rs" for j w y p rs
    proof
      assume e: "drop j (take k s) = w @ y"
      from consumes_requires[OF ip_facts(5) that] obtain x where x: "x \<in> set w" "is_digit x"
        by blast
      have "x \<in> set (drop j (take k s))" using x(1) e by simp
      then have "x \<in> set (take k s)" by (rule in_set_dropD)
      from consumes_allowed[OF kp(2) this] names_facts(3) x(2) show False by blast
    qed
    then show "clear_of ipRegex (last_before prev (take n s)) (drop n s)
        \<and> (\<forall>j w y p rs. j < k \<longrightarrow> consumes ipRegex p w rs \<longrightarrow> drop j (take k s) \<noteq> w @ y)"
      using clear_of_drop[OF i] by blast
  qed
qed

section \<open>Redacting twice\<close>

lemma placeholders:
  "js ''[REDACTED_EMAIL]'' = 91 # js ''REDACTED_EMAIL'' @ [93]"
  "js ''[REDACTED_PHONE]'' = 91 # js ''REDACTED_PHONE'' @ [93]"
  by simp_all

lemma no_at_sign:
  "\<forall>c\<in>set (js ''REDACTED_EMAIL''). c \<noteq> 64"
  "\<forall>c\<in>set (js ''REDACTED_PHONE''). c \<noteq> 64"
  "\<forall>c\<in>set (js ''REDACTED_IP''). c \<noteq> 64"
  "\<forall>c\<in>set (32 # 91 # js ''REDACTED_SECRET''). c \<noteq> 64"
  by simp_all

lemma no_digit:
  "\<forall>c\<in>set (js ''REDACTED_PHONE''). \<not> is_digit c"
  "\<forall>c\<in>set (js ''REDACTED_IP''). \<not> is_digit c"
  "\<forall>c\<in>set (32 # 91 # js ''REDACTED_SECRET''). \<not> is_digit c"
  by (simp_all add: is_digit_def)

definition redacted :: "jsstring \<Rightarrow> bool" where
  "redacted s \<longleftrightarrow> free_of emailRegex s \<and> free_of phoneRegex s \<and> clear_of ipRegex None s
                   \<and> free_of secretRegex s"

lemma redact_redacted: "redacted (redact t)"
proof -
  define t1 where "t1 = replace_all emailRegex (\<lambda>cap. js ''[REDACTED_EMAIL]'') t"
  define t2 where "t2 = replace_all phoneRegex (\<lambda>cap. js ''[REDACTED_PHONE]'') t1"
  define t3 where "t3 = replace_all ipRegex (\<lambda>cap. js ''[REDACTED_IP]'') t2"
  define t4 where "t4 = replace_all secretRegex secret_replacement t3"
  have r: "redact t = t4" unfolding redact_def t4_def t3_def t2_def t1_def ..
  have e1: "free_of emailRegex t1"
    unfolding t1_def placeholders
    using email_facts(1) _ email_facts(3,4,7) no_at_sign(1)
    by (rule becomes_free_bracket) (simp add: email_facts(2))
  have e2: "free_of emailRegex t2"
    unfolding t2_def placeholders
    using _ _ email_facts(3,4,7) no_at_sign(2) e1
    by (rule stays_free_bracket) (simp_all add: email_facts(2) phone_facts(2))
  have e3: "free_of emailRegex t3"
    unfolding t3_def ip_placeholder
    using _ _ email_facts(3,4,7) no_at_sign(3) e2
    by (rule stays_free_bracket) (simp_all add: email_facts(2) ip_facts(1))
  have e4: "free_of emailRegex t4"
    unfolding t4_def
    using _ email_facts(5,4,7) no_at_sign(4) e3
    by (rule stays_free_secret) (simp add: email_facts(2))
  have p2: "free_of phoneRegex t2"
    unfolding t2_def placeholders
    using phone_facts(1) _ phone_facts(3,4,6) no_digit(1)
    by (rule becomes_free_bracket) (simp add: phone_facts(2))
  have p3: "free_of phoneRegex t3"
    unfolding t3_def ip_placeholder
    using _ _ phone_facts(3,4,6) no_digit(2) p2
    by (rule stays_free_bracket) (simp_all add: phone_facts(2) ip_facts(1))
  have p4: "free_of phoneRegex t4"
    unfolding t4_def
    using _ phone_facts(5,4,6) no_digit(3) p3
    by (rule stays_free_secret) (simp add: phone_facts(2))
  have i3: "clear_of ipRegex None t3" unfolding t3_def by (rule ip_becomes_clear)
  have i4: "clear_of ipRegex None t4" unfolding t4_def using i3 by (rule ip_stays_clear)
  have s4: "free_of secretRegex t4" unfolding t4_def by (rule becomes_free_secret)
  show ?thesis unfolding r redacted_def using e4 p4 i4 s4 by simp
qed

lemma redact_fixed: "redacted s \<Longrightarrow> redact s = s"
  unfolding redacted_def redact_def
  by (simp add: replace_all_free replace_all_clear email_facts(1) phone_facts(1) secret_facts(1))

text \<open>
  C5. The redaction is idempotent: the four substitutions, applied in their order to a text
  that they have produced, change nothing. The text they produce has no match of any of
  the four patterns left, and no placeholder is matched by a pattern.
\<close>

theorem redact_idempotent: "redact (redact t) = redact t"
  using redact_redacted by (rule redact_fixed)

end
